theory Spec2Isabelle
  imports Main "HOL-Library.Char_ord"
begin

section \<open>Strings of the host language\<close>

text \<open>
  The extractor is TypeScript. Its strings are modelled as \<open>string\<close>; one \<open>char\<close>
  stands for one code unit below 256. The functions of this section are the string
  methods the extractor calls (\<open>trim\<close>, \<open>startsWith\<close>, \<open>includes\<close>, \<open>split('\n')\<close>,
  \<open>join('\n')\<close>), written out; \<open>includes\<close> is \<open>includes_str\<close> here, the plain name
  being reserved.
\<close>

definition is_space :: "char \<Rightarrow> bool" where
  \<comment> \<open>white space and line terminators, as \<open>\s\<close> and \<open>trim\<close> see them\<close>
  "is_space ch =
     (ch \<in> {CHR 0x09, CHR 0x0A, CHR 0x0B, CHR 0x0C, CHR 0x0D, CHR 0x20, CHR 0xA0})"

definition is_word :: "char \<Rightarrow> bool" where
  \<comment> \<open>the class \<open>\w\<close>\<close>
  "is_word ch =
     ((CHR ''a'' \<le> ch \<and> ch \<le> CHR ''z'') \<or> (CHR ''A'' \<le> ch \<and> ch \<le> CHR ''Z'')
      \<or> (CHR ''0'' \<le> ch \<and> ch \<le> CHR ''9'') \<or> ch = CHR ''_'')"

definition is_word_hyphen :: "char \<Rightarrow> bool" where
  \<comment> \<open>the class \<open>[\w-]\<close>\<close>
  "is_word_hyphen ch = (is_word ch \<or> ch = CHR ''-'')"

definition is_word_slash_hyphen :: "char \<Rightarrow> bool" where
  \<comment> \<open>the class \<open>[\w/-]\<close>\<close>
  "is_word_slash_hyphen ch = (is_word ch \<or> ch = CHR ''/'' \<or> ch = CHR ''-'')"

definition is_dot :: "char \<Rightarrow> bool" where
  \<comment> \<open>the pattern \<open>.\<close>: anything but a line terminator\<close>
  "is_dot ch = (ch \<noteq> CHR 0x0A \<and> ch \<noteq> CHR 0x0D)"

definition is_any :: "char \<Rightarrow> bool" where
  \<comment> \<open>the class \<open>[\s\S]\<close>\<close>
  "is_any ch = True"

definition not_gt :: "char \<Rightarrow> bool" where
  \<comment> \<open>the class \<open>[^>]\<close>\<close>
  "not_gt ch = (ch \<noteq> CHR ''>'')"

definition not_dquote :: "char \<Rightarrow> bool" where
  \<comment> \<open>the class \<open>[^"]\<close>\<close>
  "not_dquote ch = (ch \<noteq> CHR 0x22)"

definition trim :: "string \<Rightarrow> string" where
  "trim s = rev (dropWhile is_space (rev (dropWhile is_space s)))"

definition startsWith :: "string \<Rightarrow> string \<Rightarrow> bool" where
  "startsWith s p = (take (length p) s = p)"

fun includes_str :: "string \<Rightarrow> string \<Rightarrow> bool" where
  "includes_str [] p = (p = [])"
| "includes_str (x # xs) p = (startsWith (x # xs) p \<or> includes_str xs p)"

fun split_acc :: "string \<Rightarrow> string \<Rightarrow> string list" where
  "split_acc cur [] = [cur]"
| "split_acc cur (x # xs) =
     (if x = CHR 0x0A then cur # split_acc [] xs else split_acc (cur @ [x]) xs)"

definition split_nl :: "string \<Rightarrow> string list" where
  \<comment> \<open>\<open>content.split('\n')\<close>: always at least one line\<close>
  "split_nl s = split_acc [] s"

fun join_nl :: "string list \<Rightarrow> string" where
  \<comment> \<open>\<open>lines.join('\n')\<close>\<close>
  "join_nl [] = []"
| "join_nl [x] = x"
| "join_nl (x # y # ys) = x @ CHR 0x0A # join_nl (y # ys)"

definition truthy :: "string option \<Rightarrow> bool" where
  \<comment> \<open>truthiness of a value of type \<open>string | null | undefined\<close>: the empty string is falsy\<close>
  "truthy v = (case v of None \<Rightarrow> False | Some s \<Rightarrow> s \<noteq> [])"

section \<open>Regular expressions\<close>

text \<open>
  The patterns of the extractor are built from literal characters, character classes,
  sequences, greedy and lazy repetition of a class, an optional group, capturing groups
  and the two anchors. The matcher is the backtracking one of the language definition, in
  continuation-passing style: \<open>mt r k st\<close> matches \<open>r\<close> at state \<open>st\<close> and hands every
  way of doing so to the continuation \<open>k\<close> in priority order, returning the first
  success. A state is: are we at the start of the input, the input left, the captures.
\<close>

type_synonym caps = "nat \<Rightarrow> string option"
type_synonym mstate = "bool \<times> string \<times> caps"

datatype rx =
    Chr char
  | Cls "char \<Rightarrow> bool"
  | Eps
  | Seq rx rx
  | Star "char \<Rightarrow> bool"
  | Plus "char \<Rightarrow> bool"
  | LazyStar "char \<Rightarrow> bool"
  | Opt rx
  | Grp nat rx
  | Bol
  | Eol

fun star_greedy ::
  "(char \<Rightarrow> bool) \<Rightarrow> (mstate \<Rightarrow> 'a option) \<Rightarrow> bool \<Rightarrow> string \<Rightarrow> caps \<Rightarrow> 'a option" where
  "star_greedy p k b [] c = k (b, [], c)"
| "star_greedy p k b (x # xs) c =
     (if p x
      then (case star_greedy p k False xs c of
              Some r \<Rightarrow> Some r
            | None \<Rightarrow> k (b, x # xs, c))
      else k (b, x # xs, c))"

fun star_lazy ::
  "(char \<Rightarrow> bool) \<Rightarrow> (mstate \<Rightarrow> 'a option) \<Rightarrow> bool \<Rightarrow> string \<Rightarrow> caps \<Rightarrow> 'a option" where
  "star_lazy p k b [] c = k (b, [], c)"
| "star_lazy p k b (x # xs) c =
     (case k (b, x # xs, c) of
        Some r \<Rightarrow> Some r
      | None \<Rightarrow> if p x then star_lazy p k False xs c else None)"

fun mt :: "rx \<Rightarrow> (mstate \<Rightarrow> 'a option) \<Rightarrow> mstate \<Rightarrow> 'a option" where
  "mt (Chr a) k (b, s, c) =
     (case s of [] \<Rightarrow> None | x # xs \<Rightarrow> if x = a then k (False, xs, c) else None)"
| "mt (Cls p) k (b, s, c) =
     (case s of [] \<Rightarrow> None | x # xs \<Rightarrow> if p x then k (False, xs, c) else None)"
| "mt Eps k st = k st"
| "mt (Seq r1 r2) k st = mt r1 (mt r2 k) st"
| "mt (Star p) k (b, s, c) = star_greedy p k b s c"
| "mt (Plus p) k (b, s, c) =
     (case s of [] \<Rightarrow> None | x # xs \<Rightarrow> if p x then star_greedy p k False xs c else None)"
| "mt (LazyStar p) k (b, s, c) = star_lazy p k b s c"
| "mt (Opt r) k (b, s, c) =
     (case mt r (\<lambda>(b', s', c'). if length s' = length s then None else k (b', s', c'))
             (b, s, c) of
        Some x \<Rightarrow> Some x
      | None \<Rightarrow> k (b, s, c))"
| "mt (Grp n r) k (b, s, c) =
     mt r (\<lambda>(b', s', c'). k (b', s', c'(n \<mapsto> take (length s - length s') s))) (b, s, c)"
| "mt Bol k (b, s, c) = (if b then k (b, s, c) else None)"
| "mt Eol k (b, s, c) = (if s = [] then k (b, s, c) else None)"

text \<open>
  \<open>search r b s\<close> looks for the leftmost position of \<open>s\<close> where \<open>r\<close> matches and returns
  the matched text (\<open>match[0]\<close>), the captures and the input after the match.
\<close>

fun search :: "rx \<Rightarrow> bool \<Rightarrow> string \<Rightarrow> (string \<times> caps \<times> string) option" where
  "search r b [] =
     (case mt r Some (b, [], Map.empty) of
        Some (b', s', c) \<Rightarrow> Some ([], c, s')
      | None \<Rightarrow> None)"
| "search r b (x # xs) =
     (case mt r Some (b, x # xs, Map.empty) of
        Some (b', s', c) \<Rightarrow> Some (take (length (x # xs) - length s') (x # xs), c, s')
      | None \<Rightarrow> search r False xs)"

definition exec :: "rx \<Rightarrow> string \<Rightarrow> (string \<times> caps \<times> string) option" where
  \<comment> \<open>\<open>pattern.exec(s)\<close> of a pattern without the \<open>g\<close> flag\<close>
  "exec r s = search r True s"

definition test :: "rx \<Rightarrow> string \<Rightarrow> bool" where
  \<comment> \<open>\<open>pattern.test(s)\<close> of a pattern without the \<open>g\<close> flag\<close>
  "test r s = (search r True s \<noteq> None)"

definition exec_g :: "rx \<Rightarrow> string \<Rightarrow> nat \<Rightarrow> (string \<times> caps \<times> nat) option" where
  \<comment> \<open>\<open>pattern.exec(s)\<close> of a pattern with the \<open>g\<close> flag, whose \<open>lastIndex\<close> is the third
      argument: the result carries the new \<open>lastIndex\<close>; on \<open>None\<close> it is reset to 0\<close>
  "exec_g r s lastIndex =
     (if lastIndex > length s then None
      else (case search r (lastIndex = 0) (drop lastIndex s) of
              None \<Rightarrow> None
            | Some (m0, groups, rest) \<Rightarrow> Some (m0, groups, length s - length rest)))"

definition cat :: "rx list \<Rightarrow> rx" where
  "cat rs = foldr Seq rs Eps"

definition lit :: "string \<Rightarrow> rx" where
  "lit s = cat (map Chr s)"

section \<open>The extractor\<close>

subsection \<open>Data\<close>

record FileMetadata =
  language :: string
  fileName :: string
  filePath :: string
  fcontent :: string
  ftype :: string

record ExtractorOptions =
  inputPath :: string
  outputDir :: string
  overwrite :: bool

record CodeBlock =
  path :: string
  content :: string

record ParsedComment =
  ppath :: "string option"
  isPath :: bool
  comment :: "string option"

text \<open>
  The interfaces \<open>CodeBlock\<close>, \<open>ParsedComment\<close> and \<open>FileMetadata\<close> share the field names
  \<open>path\<close> and \<open>content\<close>; the fields of \<open>ParsedComment\<close> and \<open>FileMetadata\<close> are
  \<open>ppath\<close>, \<open>fcontent\<close> and \<open>ftype\<close> here.

  \<open>path.join\<close> and \<open>path.basename\<close> belong to the platform; the extractor only passes
  their results on, so they are parameters. \<open>path.extname\<close> decides the language, so it
  is written out: the text from the last dot of the last path component, unless that
  component has no dot, starts at that dot, or is \<open>..\<close>.
\<close>

record path_module =
  join :: "string \<Rightarrow> string \<Rightarrow> string"
  basename :: "string \<Rightarrow> string"

definition extname :: "string \<Rightarrow> string" where
  "extname p =
     (let q = rev (dropWhile (\<lambda>ch. ch = CHR ''/'') (rev p));
          base = rev (takeWhile (\<lambda>ch. ch \<noteq> CHR ''/'') (rev q));
          ext = rev (takeWhile (\<lambda>ch. ch \<noteq> CHR ''.'') (rev base))
      in if CHR ''.'' \<in> set base \<and> length ext + 1 \<noteq> length base \<and> base \<noteq> ''..''
         then CHR ''.'' # ext else [])"

datatype error = TypeError

subsection \<open>Constants of the class\<close>

definition LANGUAGE_EXTENSIONS :: "(string \<times> string) list" where
  "LANGUAGE_EXTENSIONS =
     [(''typescript'', ''.ts''), (''javascript'', ''.js''), (''python'', ''.py''),
      (''java'', ''.java''), (''cpp'', ''.cpp''), (''c++'', ''.cpp''), (''c#'', ''.cs''),
      (''rust'', ''.rs''), (''go'', ''.go''), (''ruby'', ''.rb''), (''php'', ''.php''),
      (''html'', ''.html''), (''css'', ''.css''), (''sql'', ''.sql''), (''yaml'', ''.yml''),
      (''json'', ''.json''), (''xml'', ''.xml''), (''markdown'', ''.md''),
      (''shell'', ''.sh''), (''bash'', ''.sh''), (''zsh'', ''.sh''),
      (''powershell'', ''.ps1'')]"

definition ARTIFACT_REGEX :: rx where
  \<comment> \<open>\<open>/<antArtifact[^>]*>([\s\S]*?)<\/antArtifact>/g\<close>\<close>
  "ARTIFACT_REGEX =
     cat [lit ''<antArtifact'', Star not_gt, Chr CHR ''>'', Grp 1 (LazyStar is_any),
          lit ''</antArtifact>'']"

definition ARTIFACT_ATTRS_REGEX :: rx where
  \<comment> \<open>\<open>/(\w+)="([^"]*?)"/g\<close>\<close>
  "ARTIFACT_ATTRS_REGEX =
     cat [Grp 1 (Plus is_word), Chr CHR ''='', Chr CHR 0x22, Grp 2 (LazyStar not_dquote),
          Chr CHR 0x22]"

definition path_shape :: rx where
  \<comment> \<open>\<open>[\w-]+\/[\w/-]+\.\w+\<close>, the part the four path patterns share\<close>
  "path_shape =
     cat [Plus is_word_hyphen, Chr CHR ''/'', Plus is_word_slash_hyphen, Chr CHR ''.'',
          Plus is_word]"

text \<open>
  The three patterns, in the order of the source:
  \<^verbatim>\<open>/\/\/\s*([\w-]+\/[\w/-]+\.\w+)(?:\s*:\s*(.+))?/\<close> (a path with an optional description),
  \<^verbatim>\<open>/\/\/\s*@file\s+([\w-]+\/[\w/-]+\.\w+)/\<close> (the \<open>@file\<close> directive),
  \<^verbatim>\<open>/\/\/\s*filepath:\s*([\w-]+\/[\w/-]+\.\w+)/\<close> (the \<open>filepath:\<close> directive).
\<close>

definition PATH_PATTERNS :: "rx list" where
  "PATH_PATTERNS =
     [cat [lit ''//'', Star is_space, Grp 1 path_shape,
           Opt (cat [Star is_space, Chr CHR '':'', Star is_space, Grp 2 (Plus is_dot)])],
      cat [lit ''//'', Star is_space, lit ''@file'', Plus is_space, Grp 1 path_shape],
      cat [lit ''//'', Star is_space, lit ''filepath:'', Star is_space, Grp 1 path_shape]]"

definition VALID_PATH_REGEX :: rx where
  \<comment> \<open>\<open>/^[\w-]+\/[\w/-]+\.\w+$/\<close>\<close>
  "VALID_PATH_REGEX = cat [Bol, path_shape, Eol]"

subsection \<open>Path Validator and Comment Classifier\<close>

definition isValidPath :: "string \<Rightarrow> bool" where
  "isValidPath p =
     (test VALID_PATH_REGEX p \<and>
      \<not> includes_str p ''..'' \<and>
      \<not> startsWith p ''/'' \<and>
      \<not> includes_str p [CHR 0x5C])"

text \<open>
  The loop over \<open>PATH_PATTERNS\<close>: \<open>Some\<close> is the early return from inside the loop. A
  group that did not take part in the match is \<open>undefined\<close>, which \<open>isValidPath\<close> would
  read as the text \<open>undefined\<close> and reject.
\<close>

fun try_patterns :: "rx list \<Rightarrow> string \<Rightarrow> ParsedComment option" where
  "try_patterns [] line = None"
| "try_patterns (pattern # rest) line =
     (case exec pattern line of
        None \<Rightarrow> try_patterns rest line
      | Some (m0, groups, after) \<Rightarrow>
          (case groups 1 of
             None \<Rightarrow> try_patterns rest line
           | Some p \<Rightarrow>
               if isValidPath p
               then Some \<lparr>ppath = Some p, isPath = True, comment = groups 2\<rparr>
               else try_patterns rest line))"

definition parseComment :: "string \<Rightarrow> ParsedComment" where
  "parseComment line0 =
     (let line = trim line0 in
      if \<not> startsWith line ''//'' then \<lparr>ppath = None, isPath = False, comment = None\<rparr>
      else (case try_patterns PATH_PATTERNS line of
              Some r \<Rightarrow> r
            | None \<Rightarrow> \<lparr>ppath = None, isPath = False, comment = Some (trim (drop 2 line))\<rparr>))"

subsection \<open>Block Segmenter\<close>

text \<open>
  The local variables of \<open>splitIntoCodeBlocks\<close> form the state of its loop over the
  lines. The classifier is a parameter of the loop body, instantiated with
  \<open>parseComment\<close> below. The non-null assertion on \<open>parsedComment.path\<close> is erased when
  the program is compiled: the assignment copies the field as it is.
\<close>

record seg_state =
  blocks :: "CodeBlock list"
  currentPath :: "string option"
  currentContent :: "string list"
  inCodeBlock :: bool
  codeBlockContent :: string

definition seg_init :: seg_state where
  "seg_init =
     \<lparr>blocks = [], currentPath = None, currentContent = [], inCodeBlock = False,
      codeBlockContent = []\<rparr>"

definition is_fence_line :: "string \<Rightarrow> bool" where
  "is_fence_line line = startsWith (trim line) ''```''"

definition pending_block :: "seg_state \<Rightarrow> CodeBlock option" where
  \<comment> \<open>the block that the guarded \<open>blocks.push\<close> adds, if its guard
      \<open>currentPath && currentContent.length > 0\<close> holds; it occurs twice in the source\<close>
  "pending_block st =
     (case currentPath st of
        None \<Rightarrow> None
      | Some p \<Rightarrow>
          if p \<noteq> [] \<and> length (currentContent st) > 0
          then Some \<lparr>path = p, content = trim (join_nl (currentContent st))\<rparr>
          else None)"

definition seg_step :: "(string \<Rightarrow> ParsedComment) \<Rightarrow> seg_state \<Rightarrow> string \<Rightarrow> seg_state" where
  "seg_step classify st line =
     (if is_fence_line line then
        (if inCodeBlock st then
           st\<lparr>currentContent :=
                 (if truthy (currentPath st) then currentContent st @ [codeBlockContent st]
                  else currentContent st),
              codeBlockContent := [],
              inCodeBlock := False\<rparr>
         else st\<lparr>inCodeBlock := True\<rparr>)
      else if inCodeBlock st then
        st\<lparr>codeBlockContent := codeBlockContent st @ line @ [CHR 0x0A]\<rparr>
      else
        (let parsedComment = classify line in
         if isPath parsedComment then
           (let st1 = (case pending_block st of
                         Some b \<Rightarrow> st\<lparr>blocks := blocks st @ [b], currentContent := []\<rparr>
                       | None \<Rightarrow> st);
                st2 = st1\<lparr>currentPath := ppath parsedComment\<rparr>
            in case comment parsedComment of
                 None \<Rightarrow> st2
               | Some d \<Rightarrow>
                   if d \<noteq> [] then st2\<lparr>currentContent := currentContent st2 @ [''// '' @ d]\<rparr>
                   else st2)
         else if truthy (currentPath st) then
           st\<lparr>currentContent := currentContent st @ [line]\<rparr>
         else st))"

definition seg_finish :: "seg_state \<Rightarrow> CodeBlock list" where
  \<comment> \<open>after the loop: save the last block, return \<open>blocks\<close>\<close>
  "seg_finish st =
     (case pending_block st of Some b \<Rightarrow> blocks st @ [b] | None \<Rightarrow> blocks st)"

definition seg_lines :: "string list \<Rightarrow> CodeBlock list" where
  \<comment> \<open>the loop over the lines, then the guarded push after it\<close>
  "seg_lines ls = seg_finish (foldl (seg_step parseComment) seg_init ls)"

definition splitIntoCodeBlocks :: "string \<Rightarrow> CodeBlock list" where
  "splitIntoCodeBlocks text = seg_lines (split_nl text)"

subsection \<open>Language Detector\<close>

definition detectLanguageFromPath :: "string \<Rightarrow> string" where
  "detectLanguageFromPath fp =
     (let ext = drop 1 (extname fp) in
      case find (\<lambda>(lang, langExt). langExt = ''.'' @ ext) LANGUAGE_EXTENSIONS of
        Some (lang, langExt) \<Rightarrow> lang
      | None \<Rightarrow> ''txt'')"

definition detectLanguage :: "string \<Rightarrow> string" where
  "detectLanguage text =
     (if includes_str text ''import { useState }'' then ''typescript''
      else if includes_str text ''def '' then ''python''
      else if includes_str text ''public class '' then ''java''
      else if includes_str text ''<?php'' then ''php''
      else if includes_str text ''<!DOCTYPE html>'' then ''html''
      else ''txt'')"

subsection \<open>Extraction Coordinator\<close>

definition processCodeBlock ::
  "path_module \<Rightarrow> ExtractorOptions \<Rightarrow> CodeBlock \<Rightarrow> string option \<Rightarrow> FileMetadata option" where
  "processCodeBlock pm options block defaultLanguage =
     (let fp = join pm (outputDir options) (path block);
          lang = (case defaultLanguage of
                    None \<Rightarrow> detectLanguageFromPath (path block)
                  | Some l \<Rightarrow> if l \<noteq> [] then l else detectLanguageFromPath (path block))
      in Some \<lparr>language = lang, fileName = basename pm fp, filePath = fp,
               fcontent = content block, ftype = ''code-block''\<rparr>)"

type_synonym collected = "FileMetadata list \<times> string set"

definition collect :: "collected \<Rightarrow> FileMetadata option \<Rightarrow> collected" where
  \<comment> \<open>the guarded \<open>files.push\<close> and \<open>processedPaths.add\<close>, which occur twice in the source\<close>
  "collect acc fileInfo =
     (case fileInfo of
        None \<Rightarrow> acc
      | Some f \<Rightarrow>
          if filePath f \<notin> snd acc then (fst acc @ [f], insert (filePath f) (snd acc))
          else acc)"

text \<open>
  The two \<open>while\<close> loops run a pattern with the \<open>g\<close> flag until it finds nothing more.
  Such a loop does not end when the pattern matches the empty text, so both are partial
  functions: \<open>None\<close> is a run that does not return. Each loop starts with \<open>lastIndex\<close> 0,
  where the last failed search of the previous run left it.
\<close>

partial_function (option) attrs_loop ::
  "string \<Rightarrow> nat \<Rightarrow> (string \<rightharpoonup> string) \<Rightarrow> (string \<rightharpoonup> string) option" where
  "attrs_loop m0 lastIndex attributes =
     (case exec_g ARTIFACT_ATTRS_REGEX m0 lastIndex of
        None \<Rightarrow> Some attributes
      | Some (a0, groups, lastIndex') \<Rightarrow>
          attrs_loop m0 lastIndex'
            (attributes((case groups 1 of None \<Rightarrow> ''undefined'' | Some n \<Rightarrow> n) := groups 2)))"

definition type_is_code :: "(string \<rightharpoonup> string) \<Rightarrow> bool" where
  \<comment> \<open>\<open>attributes.type?.includes('code') || attributes.type?.includes('html')\<close>\<close>
  "type_is_code attributes =
     (case attributes ''type'' of
        None \<Rightarrow> False
      | Some t \<Rightarrow> includes_str t ''code'' \<or> includes_str t ''html'')"

definition artifact_body ::
  "path_module \<Rightarrow> ExtractorOptions \<Rightarrow> caps \<Rightarrow> (string \<rightharpoonup> string) \<Rightarrow> collected
     \<Rightarrow> error + collected" where
  \<comment> \<open>the body of the loop over the artifacts, after the attributes have been read;
      \<open>match[1]\<close> is used as a string, which raises when it is \<open>undefined\<close>\<close>
  "artifact_body pm options groups attributes acc =
     (if type_is_code attributes then
        (case groups 1 of
           None \<Rightarrow> Inl TypeError
         | Some artifactContent \<Rightarrow>
             (let lang = (if truthy (attributes ''language'')
                          then attributes ''language''
                          else Some (detectLanguage artifactContent));
                  artifactBlocks = splitIntoCodeBlocks artifactContent
              in Inr (foldl (\<lambda>a block. collect a (processCodeBlock pm options block lang))
                        acc artifactBlocks)))
      else Inr acc)"

partial_function (option) artifact_loop ::
  "path_module \<Rightarrow> ExtractorOptions \<Rightarrow> string \<Rightarrow> nat \<Rightarrow> collected
     \<Rightarrow> (error + collected) option" where
  "artifact_loop pm options text lastIndex acc =
     (case exec_g ARTIFACT_REGEX text lastIndex of
        None \<Rightarrow> Some (Inr acc)
      | Some (m0, groups, lastIndex') \<Rightarrow>
          (case attrs_loop m0 0 Map.empty of
             None \<Rightarrow> None
           | Some attributes \<Rightarrow>
               (case artifact_body pm options groups attributes acc of
                  Inl e \<Rightarrow> Some (Inl e)
                | Inr acc' \<Rightarrow> artifact_loop pm options text lastIndex' acc')))"

definition extractFiles ::
  "path_module \<Rightarrow> ExtractorOptions \<Rightarrow> string \<Rightarrow> (error + FileMetadata list) option" where
  "extractFiles pm options text =
     (let regularBlocks = splitIntoCodeBlocks text;
          acc = foldl (\<lambda>a block. collect a (processCodeBlock pm options block None))
                  ([], {}) regularBlocks
      in case artifact_loop pm options text 0 acc of
           None \<Rightarrow> None
         | Some (Inl e) \<Rightarrow> Some (Inl e)
         | Some (Inr (files, processedPaths)) \<Rightarrow> Some (Inr files))"

section \<open>Notions of the specification and example documents\<close>

definition fence_marker_only :: "string \<Rightarrow> bool" where
  \<comment> \<open>the specification's fence marker: three backticks, then at most a language tag (read
      here as any run of characters without white space), and nothing else\<close>
  "fence_marker_only t = (take 3 t = ''```'' \<and> list_all (\<lambda>ch. \<not> is_space ch) (drop 3 t))"

definition plain_path_module :: path_module where
  \<comment> \<open>a path module for the examples: \<open>join\<close> puts a slash between a directory and a
      relative path, \<open>basename\<close> is the text after the last slash\<close>
  "plain_path_module =
     \<lparr>join = (\<lambda>d p. d @ ''/'' @ p),
      basename = (\<lambda>p. rev (takeWhile (\<lambda>ch. ch \<noteq> CHR ''/'') (rev p)))\<rparr>"

definition plain_options :: ExtractorOptions where
  "plain_options = \<lparr>inputPath = ''input.txt'', outputDir = ''extracted'', overwrite = False\<rparr>"

fun split_at :: "char \<Rightarrow> string \<Rightarrow> string \<Rightarrow> string list" where
  "split_at sep cur [] = [cur]"
| "split_at sep cur (x # xs) =
     (if x = sep then cur # split_at sep [] xs else split_at sep (cur @ [x]) xs)"

fun segments_ok :: "string list \<Rightarrow> bool" where
  "segments_ok [] = False"
| "segments_ok [l] =
     (let stem = takeWhile (\<lambda>ch. ch \<noteq> CHR ''.'') l;
          ext = drop 1 (dropWhile (\<lambda>ch. ch \<noteq> CHR ''.'') l)
      in stem \<noteq> [] \<and> list_all is_word_hyphen stem \<and> CHR ''.'' \<in> set l \<and>
         ext \<noteq> [] \<and> list_all is_word ext)"
| "segments_ok (sg # rest) = (sg \<noteq> [] \<and> list_all is_word_hyphen sg \<and> segments_ok rest)"

definition spec_path_shape :: "string \<Rightarrow> bool" where
  \<comment> \<open>the specification's shape of a path: one or more segments of word characters and
      hyphens, separated by forward slashes, the last one ending in a dot and an extension
      of word characters\<close>
  "spec_path_shape p = segments_ok (split_at CHR ''/'' [] p)"

definition pattern_accepts :: "rx \<Rightarrow> string \<Rightarrow> bool" where
  \<comment> \<open>the pattern matches the line and the path it captures passes the validator\<close>
  "pattern_accepts pat line =
     (case exec pat line of
        None \<Rightarrow> False
      | Some (m0, groups, after) \<Rightarrow>
          (case groups 1 of None \<Rightarrow> False | Some p \<Rightarrow> isValidPath p))"


text \<open>
  The records of all fragments in processing order, before any is dropped: those of the
  direct scan, then those of each artifact that passes the type filter, each in document
  order. \<open>keep_first\<close> is the guarded push applied to a list of records; \<open>tracked\<close> says
  that the set of processed paths is the set of the paths of the collected records.
\<close>

definition span_records ::
  "path_module \<Rightarrow> ExtractorOptions \<Rightarrow> caps \<Rightarrow> (string \<rightharpoonup> string) \<Rightarrow> FileMetadata list" where
  "span_records pm options groups attributes =
     (if type_is_code attributes then
        (case groups 1 of
           None \<Rightarrow> []
         | Some artifactContent \<Rightarrow>
             List.map_filter
               (\<lambda>block. processCodeBlock pm options block
                  (if truthy (attributes ''language'') then attributes ''language''
                   else Some (detectLanguage artifactContent)))
               (splitIntoCodeBlocks artifactContent))
      else [])"

partial_function (option) artifact_records ::
  "path_module \<Rightarrow> ExtractorOptions \<Rightarrow> string \<Rightarrow> nat \<Rightarrow> FileMetadata list option" where
  "artifact_records pm options text lastIndex =
     (case exec_g ARTIFACT_REGEX text lastIndex of
        None \<Rightarrow> Some []
      | Some (m0, groups, lastIndex') \<Rightarrow>
          (case attrs_loop m0 0 Map.empty of
             None \<Rightarrow> None
           | Some attributes \<Rightarrow>
               Option.bind (artifact_records pm options text lastIndex')
                 (\<lambda>rest. Some (span_records pm options groups attributes @ rest))))"

definition fragment_records ::
  "path_module \<Rightarrow> ExtractorOptions \<Rightarrow> string \<Rightarrow> FileMetadata list option" where
  "fragment_records pm options text =
     map_option
       (\<lambda>rest. List.map_filter (\<lambda>block. processCodeBlock pm options block None)
                  (splitIntoCodeBlocks text) @ rest)
       (artifact_records pm options text 0)"

definition keep_first :: "collected \<Rightarrow> FileMetadata list \<Rightarrow> collected" where
  "keep_first acc cs = foldl (\<lambda>a f. collect a (Some f)) acc cs"

definition tracked :: "collected \<Rightarrow> bool" where
  "tracked acc = (snd acc = filePath ` set (fst acc) \<and> distinct (map filePath (fst acc)))"

definition duplicate_path_document :: string where
  "duplicate_path_document =
     join_nl [''// src/a.ts'', ''```'', ''A'', ''```'', ''// src/a.ts'', ''```'', ''B'', ''```'']"

text \<open>
  The state of the Block Segmenter before line \<open>n\<close> of a list of lines, and the lines at
  which it takes a path declaration: a line outside every fenced block that is not a fence
  line and that the Comment Classifier reads as a path declaration.
\<close>

definition scan_state :: "string list \<Rightarrow> nat \<Rightarrow> seg_state" where
  "scan_state ls n = foldl (seg_step parseComment) seg_init (take n ls)"

definition declares_at :: "string list \<Rightarrow> nat \<Rightarrow> bool" where
  "declares_at ls n =
     (n < length ls \<and> \<not> is_fence_line (ls ! n) \<and> \<not> inCodeBlock (scan_state ls n) \<and>
      isPath (parseComment (ls ! n)))"

definition two_fragment_document :: string where
  \<comment> \<open>a path comment with a fenced block, then a second path comment with a plain line\<close>
  "two_fragment_document =
     join_nl [''// src/a.ts'', ''```'', ''x'', ''```'', ''// src/b.ts'', ''y'']"

text \<open>
  The Comment Classifier with its list of patterns as a parameter: the body of
  \<open>parseComment\<close>, word for word, over any list. The three patterns of the class capture
  only text of the validated shape; \<open>loose_pattern\<close>, the pattern \<^verbatim>\<open>/\/\/\s*(\S+)/\<close>, captures
  any run without white space, so its captured text can fail the Path Validator.
\<close>

definition parseComment_with :: "rx list \<Rightarrow> string \<Rightarrow> ParsedComment" where
  "parseComment_with patterns line0 =
     (let line = trim line0 in
      if \<not> startsWith line ''//'' then \<lparr>ppath = None, isPath = False, comment = None\<rparr>
      else (case try_patterns patterns line of
              Some r \<Rightarrow> r
            | None \<Rightarrow> \<lparr>ppath = None, isPath = False, comment = Some (trim (drop 2 line))\<rparr>))"

definition is_nonspace :: "char \<Rightarrow> bool" where
  \<comment> \<open>the class \<open>\S\<close>\<close>
  "is_nonspace ch = (\<not> is_space ch)"

definition loose_pattern :: rx where
  "loose_pattern = cat [lit ''//'', Star is_space, Grp 1 (Plus is_nonspace)]"




section \<open>The meaning of a pattern\<close>

text \<open>
  \<open>den r st\<close> is the set of states in which a match of \<open>r\<close> that starts in \<open>st\<close> can end,
  whatever the priorities; \<open>shape_parts\<close> names the three conditions on the parts of a path.
\<close>

fun den :: "rx \<Rightarrow> mstate \<Rightarrow> mstate set" where
  "den (Chr a) (b, s, c) = {(False, xs, c) | xs. s = a # xs}"
| "den (Cls p) (b, s, c) = {(False, xs, c) | x xs. s = x # xs \<and> p x}"
| "den Eps st = {st}"
| "den (Seq r1 r2) st = (\<Union>st' \<in> den r1 st. den r2 st')"
| "den (Star p) (b, s, c) = {(b \<and> u = [], v, c) | u v. s = u @ v \<and> list_all p u}"
| "den (Plus p) (b, s, c) = {(False, v, c) | u v. s = u @ v \<and> u \<noteq> [] \<and> list_all p u}"
| "den (LazyStar p) (b, s, c) = {(b \<and> u = [], v, c) | u v. s = u @ v \<and> list_all p u}"
| "den (Opt r) (b, s, c) =
     insert (b, s, c) {(b', s', c'). (b', s', c') \<in> den r (b, s, c) \<and> length s' \<noteq> length s}"
| "den (Grp n r) (b, s, c) =
     (\<lambda>(b', s', c'). (b', s', c'(n \<mapsto> take (length s - length s') s))) ` den r (b, s, c)"
| "den Bol (b, s, c) = (if b then {(b, s, c)} else {})"
| "den Eol (b, s, c) = (if s = [] then {(b, s, c)} else {})"

definition shape_parts :: "string \<Rightarrow> string \<Rightarrow> string \<Rightarrow> bool" where
  "shape_parts a bb e =
     (a \<noteq> [] \<and> list_all is_word_hyphen a \<and> bb \<noteq> [] \<and> list_all is_word_slash_hyphen bb \<and>
      e \<noteq> [] \<and> list_all is_word e)"


fun no_group :: "nat \<Rightarrow> rx \<Rightarrow> bool" where
  \<comment> \<open>the pattern has no capturing group of this number\<close>
  "no_group n (Seq r1 r2) = (no_group n r1 \<and> no_group n r2)"
| "no_group n (Opt r) = no_group n r"
| "no_group n (Grp m r) = (m \<noteq> n \<and> no_group n r)"
| "no_group n r = True"

section \<open>Evaluation\<close>

lemmas rx_defs =
  ARTIFACT_REGEX_def ARTIFACT_ATTRS_REGEX_def PATH_PATTERNS_def VALID_PATH_REGEX_def
  path_shape_def cat_def lit_def

lemmas cls_defs =
  is_space_def is_word_def is_word_hyphen_def is_word_slash_hyphen_def is_dot_def is_any_def
  not_gt_def not_dquote_def less_eq_char_def

lemmas str_defs = trim_def startsWith_def split_nl_def truthy_def

lemmas seg_defs =
  splitIntoCodeBlocks_def seg_lines_def seg_step_def seg_finish_def seg_init_def
  pending_block_def is_fence_line_def parseComment_def isValidPath_def exec_def test_def

lemmas coord_defs =
  extractFiles_def exec_g_def collect_def processCodeBlock_def detectLanguageFromPath_def
  detectLanguage_def extname_def LANGUAGE_EXTENSIONS_def artifact_body_def type_is_code_def
  artifact_loop.simps attrs_loop.simps plain_path_module_def plain_options_def

section \<open>The matcher and the meaning of patterns\<close>

lemma star_greedy_sound:
  "star_greedy p k b s c = Some x \<Longrightarrow>
   \<exists>u v. s = u @ v \<and> list_all p u \<and> k (b \<and> u = [], v, c) = Some x"
proof (induction s arbitrary: b)
  case Nil
  then show ?case by simp
next
  case (Cons a s)
  show ?case
  proof (cases "p a \<and> star_greedy p k False s c = Some x")
    case True
    with Cons.IH [of False] obtain u v where
      "s = u @ v" "list_all p u" "k (False, v, c) = Some x" by auto
    with True show ?thesis
      by (intro exI [of _ "a # u"] exI [of _ v]) simp
  next
    case False
    with Cons.prems have "k (b, a # s, c) = Some x"
      by (auto split: if_splits option.splits)
    then show ?thesis by (intro exI [of _ "[]"] exI [of _ "a # s"]) simp
  qed
qed

lemma star_greedy_complete:
  "list_all p u \<Longrightarrow> k (b \<and> u = [], v, c) \<noteq> None \<Longrightarrow> star_greedy p k b (u @ v) c \<noteq> None"
proof (induction u arbitrary: b)
  case Nil
  then show ?case by (cases v) (auto split: option.splits)
next
  case (Cons a u)
  from Cons.IH [of False] Cons.prems have "star_greedy p k False (u @ v) c \<noteq> None" by simp
  with Cons.prems show ?case by (auto split: option.splits)
qed

lemma star_lazy_sound:
  "star_lazy p k b s c = Some x \<Longrightarrow>
   \<exists>u v. s = u @ v \<and> list_all p u \<and> k (b \<and> u = [], v, c) = Some x"
proof (induction s arbitrary: b)
  case Nil
  then show ?case by simp
next
  case (Cons a s)
  show ?case
  proof (cases "k (b, a # s, c) = Some x")
    case True
    then show ?thesis by (intro exI [of _ "[]"] exI [of _ "a # s"]) simp
  next
    case False
    with Cons.prems have "p a" "star_lazy p k False s c = Some x"
      by (auto split: if_splits option.splits)
    with Cons.IH [of False] obtain u v where
      "s = u @ v" "list_all p u" "k (False, v, c) = Some x" by auto
    with \<open>p a\<close> show ?thesis
      by (intro exI [of _ "a # u"] exI [of _ v]) simp
  qed
qed

lemma star_lazy_complete:
  "list_all p u \<Longrightarrow> k (b \<and> u = [], v, c) \<noteq> None \<Longrightarrow> star_lazy p k b (u @ v) c \<noteq> None"
proof (induction u arbitrary: b)
  case Nil
  then show ?case by (cases v) (auto split: option.splits)
next
  case (Cons a u)
  from Cons.IH [of False] Cons.prems have "star_lazy p k False (u @ v) c \<noteq> None" by simp
  with Cons.prems show ?case by (auto split: option.splits)
qed

lemma mt_sound: "mt r k st = Some x \<Longrightarrow> \<exists>st' \<in> den r st. k st' = Some x"
proof (induction r arbitrary: k st x)
  case (Chr a)
  then show ?case by (cases st) (auto split: list.splits if_splits)
next
  case (Cls p)
  then show ?case by (cases st) (auto split: list.splits if_splits)
next
  case Eps
  then show ?case by simp
next
  case (Seq r1 r2)
  from Seq.prems have "mt r1 (mt r2 k) st = Some x" by simp
  from Seq.IH(1) [OF this] obtain st1 where "st1 \<in> den r1 st" "mt r2 k st1 = Some x" by blast
  with Seq.IH(2) [of k st1 x] show ?case by auto
next
  case (Star p)
  obtain b s c where st: "st = (b, s, c)" by (cases st)
  with Star have "star_greedy p k b s c = Some x" by simp
  from star_greedy_sound [OF this] obtain u v where
    uv: "s = u @ v" "list_all p u" "k (b \<and> u = [], v, c) = Some x" by blast
  then have "(b \<and> u = [], v, c) \<in> den (Star p) (b, s, c)" by (simp; blast)
  with uv(3) show ?case unfolding st by blast
next
  case (Plus p)
  obtain b s c where st: "st = (b, s, c)" by (cases st)
  with Plus obtain a s' where s: "s = a # s'" "p a" "star_greedy p k False s' c = Some x"
    by (auto split: list.splits if_splits)
  from star_greedy_sound [OF s(3)] obtain u v where
    uv: "s' = u @ v" "list_all p u" "k (False, v, c) = Some x" by auto
  with s have "s = (a # u) @ v \<and> a # u \<noteq> [] \<and> list_all p (a # u)" by simp
  then have "(False, v, c) \<in> den (Plus p) (b, s, c)" by (simp; blast)
  with uv(3) show ?case unfolding st by blast
next
  case (LazyStar p)
  obtain b s c where st: "st = (b, s, c)" by (cases st)
  with LazyStar have "star_lazy p k b s c = Some x" by simp
  from star_lazy_sound [OF this] obtain u v where
    uv: "s = u @ v" "list_all p u" "k (b \<and> u = [], v, c) = Some x" by blast
  then have "(b \<and> u = [], v, c) \<in> den (LazyStar p) (b, s, c)" by (simp; blast)
  with uv(3) show ?case unfolding st by blast
next
  case (Opt r)
  obtain b s c where st: "st = (b, s, c)" by (cases st)
  let ?k = "\<lambda>(b', s', c'). if length s' = length s then None else k (b', s', c')"
  show ?case
  proof (cases "mt r ?k (b, s, c)")
    case None
    with Opt.prems st have "k (b, s, c) = Some x" by simp
    then show ?thesis unfolding st by auto
  next
    case (Some y)
    with Opt.prems st have "mt r ?k (b, s, c) = Some x" by simp
    from Opt.IH [OF this] obtain st1 where st1: "st1 \<in> den r (b, s, c)" "?k st1 = Some x"
      by blast
    obtain b1 s1 c1 where e: "st1 = (b1, s1, c1)" by (cases st1)
    from st1(2) e have "length s1 \<noteq> length s" "k (b1, s1, c1) = Some x"
      by (simp_all split: if_splits)
    with st1(1) e have "(b1, s1, c1) \<in> den (Opt r) (b, s, c)" by simp
    with \<open>k (b1, s1, c1) = Some x\<close> show ?thesis unfolding st by blast
  qed
next
  case (Grp n r)
  obtain b s c where st: "st = (b, s, c)" by (cases st)
  let ?k = "\<lambda>(b', s', c'). k (b', s', c'(n \<mapsto> take (length s - length s') s))"
  from Grp.prems st have "mt r ?k (b, s, c) = Some x" by simp
  from Grp.IH [OF this] obtain st1 where st1: "st1 \<in> den r (b, s, c)" "?k st1 = Some x"
    by blast
  obtain b1 s1 c1 where e: "st1 = (b1, s1, c1)" by (cases st1)
  let ?st2 = "(b1, s1, c1(n \<mapsto> take (length s - length s1) s))"
  from st1(2) e have k2: "k ?st2 = Some x" by simp
  from st1(1) e have "?st2 \<in> den (Grp n r) (b, s, c)"
    by (simp add: image_iff) (rule bexI [of _ "(b1, s1, c1)"], simp_all)
  with k2 show ?case unfolding st by blast
next
  case Bol
  then show ?case by (cases st) (auto split: if_splits)
next
  case Eol
  then show ?case by (cases st) (auto split: if_splits)
qed

lemma mt_complete: "st' \<in> den r st \<Longrightarrow> k st' \<noteq> None \<Longrightarrow> mt r k st \<noteq> None"
proof (induction r arbitrary: k st st')
  case (Chr a)
  then show ?case by (cases st) auto
next
  case (Cls p)
  then show ?case by (cases st) auto
next
  case Eps
  then show ?case by simp
next
  case (Seq r1 r2)
  from Seq.prems obtain st1 where st1: "st1 \<in> den r1 st" "st' \<in> den r2 st1" by auto
  from Seq.IH(2) [of st' st1 k] st1(2) Seq.prems(2) have "mt r2 k st1 \<noteq> None" by blast
  from Seq.IH(1) [of st1 st "mt r2 k"] st1(1) this show ?case by simp
next
  case (Star p)
  obtain b s c where st: "st = (b, s, c)" by (cases st)
  with Star.prems obtain u v where uv: "s = u @ v" "list_all p u" "st' = (b \<and> u = [], v, c)"
    by auto
  from star_greedy_complete [of p u k b v c] uv Star.prems(2) show ?case unfolding st by simp
next
  case (Plus p)
  obtain b s c where st: "st = (b, s, c)" by (cases st)
  with Plus.prems obtain u v where uv: "s = u @ v" "u \<noteq> []" "list_all p u" "st' = (False, v, c)"
    by auto
  then obtain a u' where u: "u = a # u'" by (cases u) auto
  have "star_greedy p k False (u' @ v) c \<noteq> None"
    using uv u Plus.prems(2) by (intro star_greedy_complete) auto
  with uv u st show ?case by simp
next
  case (LazyStar p)
  obtain b s c where st: "st = (b, s, c)" by (cases st)
  with LazyStar.prems obtain u v where uv: "s = u @ v" "list_all p u" "st' = (b \<and> u = [], v, c)"
    by auto
  from star_lazy_complete [of p u k b v c] uv LazyStar.prems(2) show ?case unfolding st by simp
next
  case (Opt r)
  obtain b s c where st: "st = (b, s, c)" by (cases st)
  let ?k = "\<lambda>(b', s', c'). if length s' = length s then None else k (b', s', c')"
  show ?case
  proof (cases "st' = (b, s, c)")
    case True
    with Opt.prems(2) show ?thesis unfolding st by (auto split: option.splits)
  next
    case False
    with Opt.prems st have d: "st' \<in> den r (b, s, c)" "length (fst (snd st')) \<noteq> length s"
      by auto
    with Opt.prems(2) have "?k st' \<noteq> None" by (cases st') auto
    from Opt.IH [of st' "(b, s, c)" ?k] d(1) this show ?thesis
      unfolding st by (auto split: option.splits)
  qed
next
  case (Grp n r)
  obtain b s c where st: "st = (b, s, c)" by (cases st)
  let ?k = "\<lambda>(b', s', c'). k (b', s', c'(n \<mapsto> take (length s - length s') s))"
  from Grp.prems st obtain st1 where st1: "st1 \<in> den r (b, s, c)"
    "st' = (\<lambda>(b', s', c'). (b', s', c'(n \<mapsto> take (length s - length s') s))) st1" by auto
  with Grp.prems(2) have "?k st1 \<noteq> None" by (cases st1) auto
  from Grp.IH [of st1 "(b, s, c)" ?k] st1(1) this show ?case unfolding st by simp
next
  case Bol
  then show ?case by (cases st) (auto split: if_splits)
next
  case Eol
  then show ?case by (cases st) (auto split: if_splits)
qed

lemma mt_defined_iff: "(mt r k st \<noteq> None) = (\<exists>st'\<in>den r st. k st' \<noteq> None)"
proof
  assume "mt r k st \<noteq> None"
  then obtain x where "mt r k st = Some x" by auto
  from mt_sound [OF this] obtain st' where "st' \<in> den r st" "k st' = Some x" by blast
  then show "\<exists>st'\<in>den r st. k st' \<noteq> None" by (intro bexI [of _ st']) simp_all
next
  assume "\<exists>st'\<in>den r st. k st' \<noteq> None"
  then obtain st' where "st' \<in> den r st" "k st' \<noteq> None" by blast
  then show "mt r k st \<noteq> None" by (rule mt_complete)
qed

lemma search_sound:
  "search r b s = Some (m0, c, rest) \<Longrightarrow>
   \<exists>pre s1 b'. s = pre @ s1 \<and> mt r Some (b \<and> pre = [], s1, Map.empty) = Some (b', rest, c)
      \<and> m0 = take (length s1 - length rest) s1"
proof (induction s arbitrary: b)
  case Nil
  then obtain b' where "mt r Some (b, [], Map.empty) = Some (b', rest, c)" "m0 = []"
    by (simp split: option.splits prod.splits)
  then show ?case
    by (intro exI [of _ "[]"] exI [of _ "[]"] exI [of _ b']) simp
next
  case (Cons x xs)
  show ?case
  proof (cases "mt r Some (b, x # xs, Map.empty)")
    case None
    with Cons.prems have "search r False xs = Some (m0, c, rest)" by simp
    from Cons.IH [OF this] obtain pre s1 b' where
      "xs = pre @ s1" "mt r Some (False, s1, Map.empty) = Some (b', rest, c)"
      "m0 = take (length s1 - length rest) s1" by auto
    then show ?thesis
      by (intro exI [of _ "x # pre"] exI [of _ s1] exI [of _ b']) simp
  next
    case (Some y)
    obtain b' s' c' where y: "y = (b', s', c')" by (cases y)
    from Some y Cons.prems have e: "rest = s'" "c = c'"
      "m0 = take (length (x # xs) - length s') (x # xs)"
      by auto
    from Some y e show ?thesis
      by (intro exI [of _ "[]"] exI [of _ "x # xs"] exI [of _ b']) simp
  qed
qed

lemma search_Bol_False: "search (Seq Bol r) False s = None"
  by (induction s) simp_all

lemma test_anchored:
  "test (Seq Bol r) s = (mt r Some (True, s, Map.empty) \<noteq> None)"
proof (cases s)
  case Nil
  then show ?thesis by (simp add: test_def split: option.splits)
next
  case (Cons x xs)
  then show ?thesis by (simp add: test_def search_Bol_False split: option.splits)
qed

lemma in_den_Seq: "(st' \<in> den (Seq r1 r2) st) = (\<exists>st1. st1 \<in> den r1 st \<and> st' \<in> den r2 st1)"
  by (simp only: den.simps UN_iff Bex_def)

lemma in_den_Chr:
  "(st1 \<in> den (Chr a) (b, s, c)) = (\<exists>v. s = a # v \<and> st1 = (False, v, c))"
  by (simp only: den.simps mem_Collect_eq) blast

lemma in_den_Plus:
  "(st1 \<in> den (Plus p) (b, s, c)) =
   (\<exists>u v. s = u @ v \<and> u \<noteq> [] \<and> list_all p u \<and> st1 = (False, v, c))"
  by (simp only: den.simps mem_Collect_eq) blast

lemma in_den_Star:
  "(st1 \<in> den (Star p) (b, s, c)) =
   (\<exists>u v. s = u @ v \<and> list_all p u \<and> st1 = (b \<and> u = [], v, c))"
  by (simp only: den.simps mem_Collect_eq) blast

lemma in_den_LazyStar:
  "(st1 \<in> den (LazyStar p) (b, s, c)) =
   (\<exists>u v. s = u @ v \<and> list_all p u \<and> st1 = (b \<and> u = [], v, c))"
  by (simp only: den.simps mem_Collect_eq) blast

lemma in_den_Seq_Plus:
  "(st' \<in> den (Seq (Plus p) r) (b, s, c)) =
   (\<exists>u v. s = u @ v \<and> u \<noteq> [] \<and> list_all p u \<and> st' \<in> den r (False, v, c))"
  unfolding in_den_Seq in_den_Plus by blast

lemma in_den_Seq_Star:
  "(st' \<in> den (Seq (Star p) r) (b, s, c)) =
   (\<exists>u v. s = u @ v \<and> list_all p u \<and> st' \<in> den r (b \<and> u = [], v, c))"
  unfolding in_den_Seq in_den_Star by blast

lemma in_den_Seq_Chr:
  "(st' \<in> den (Seq (Chr a) r) (b, s, c)) = (\<exists>v. s = a # v \<and> st' \<in> den r (False, v, c))"
  unfolding in_den_Seq in_den_Chr by blast

lemma in_den_Grp:
  "(st' \<in> den (Grp n r) (b, s, c)) =
   (\<exists>b' s' c'. (b', s', c') \<in> den r (b, s, c) \<and>
      st' = (b', s', c'(n \<mapsto> take (length s - length s') s)))"
  by (simp only: den.simps image_iff Bex_def) (simp add: split_paired_Ex)

lemma in_den_path_shape:
  "(st' \<in> den path_shape (b, s, c)) =
     (\<exists>a bb e v. st' = (False, v, c) \<and> s = a @ ''/'' @ bb @ ''.'' @ e @ v \<and> shape_parts a bb e)"
  (is "?L = ?R")
proof -
  have unf: "?L =
     (\<exists>a v1. s = a @ v1 \<and> a \<noteq> [] \<and> list_all is_word_hyphen a \<and>
       (\<exists>v2. v1 = CHR ''/'' # v2 \<and>
         (\<exists>bb v3. v2 = bb @ v3 \<and> bb \<noteq> [] \<and> list_all is_word_slash_hyphen bb \<and>
           (\<exists>v4. v3 = CHR ''.'' # v4 \<and>
             (\<exists>e v. v4 = e @ v \<and> e \<noteq> [] \<and> list_all is_word e \<and> st' = (False, v, c))))))"
    unfolding path_shape_def cat_def foldr.simps o_apply id_apply
    by (simp only: in_den_Seq_Plus in_den_Seq_Chr den.simps(3) singleton_iff)
  show ?thesis
  proof
    assume ?L
    with unf obtain a v1 where 1: "s = a @ v1" "a \<noteq> []" "list_all is_word_hyphen a"
      and r1: "\<exists>v2. v1 = CHR ''/'' # v2 \<and>
         (\<exists>bb v3. v2 = bb @ v3 \<and> bb \<noteq> [] \<and> list_all is_word_slash_hyphen bb \<and>
           (\<exists>v4. v3 = CHR ''.'' # v4 \<and>
             (\<exists>e v. v4 = e @ v \<and> e \<noteq> [] \<and> list_all is_word e \<and> st' = (False, v, c))))"
      by blast
    from r1 obtain v2 bb v3 where 2: "v1 = CHR ''/'' # v2" "v2 = bb @ v3" "bb \<noteq> []"
      "list_all is_word_slash_hyphen bb"
      and r2: "\<exists>v4. v3 = CHR ''.'' # v4 \<and>
             (\<exists>e v. v4 = e @ v \<and> e \<noteq> [] \<and> list_all is_word e \<and> st' = (False, v, c))"
      by blast
    from r2 obtain v4 e v where 3: "v3 = CHR ''.'' # v4" "v4 = e @ v" "e \<noteq> []"
      "list_all is_word e" "st' = (False, v, c)"
      by blast
    from 1 2 3 show ?R
      by (intro exI [of _ a] exI [of _ bb] exI [of _ e] exI [of _ v]) (simp add: shape_parts_def)
  next
    assume ?R
    then obtain a bb e v where r: "st' = (False, v, c)"
      "s = a @ ''/'' @ bb @ ''.'' @ e @ v" "shape_parts a bb e"
      by blast
    show ?L unfolding unf
      apply (rule exI [of _ a], rule exI [of _ "''/'' @ bb @ ''.'' @ e @ v"])
      using r apply (simp add: shape_parts_def)
      apply (rule exI [of _ bb], rule exI [of _ "''.'' @ e @ v"])
      apply simp
      done
  qed
qed

lemma test_valid_regex:
  "test VALID_PATH_REGEX p = (\<exists>a bb e. p = a @ ''/'' @ bb @ ''.'' @ e \<and> shape_parts a bb e)"
  (is "?L = ?R")
proof -
  have v: "VALID_PATH_REGEX = Seq Bol (Seq path_shape (Seq Eol Eps))"
    by (simp add: VALID_PATH_REGEX_def cat_def)
  have "?L = (\<exists>st'. st' \<in> den (Seq path_shape (Seq Eol Eps)) (True, p, Map.empty))"
    unfolding v test_anchored mt_defined_iff by simp
  also have "\<dots> = (\<exists>st' st1. st1 \<in> den path_shape (True, p, Map.empty)
                      \<and> st' \<in> den (Seq Eol Eps) st1)"
    unfolding in_den_Seq [of _ path_shape] ..
  also have "\<dots> = ?R"
  proof
    assume "\<exists>st' st1. st1 \<in> den path_shape (True, p, Map.empty) \<and> st' \<in> den (Seq Eol Eps) st1"
    then obtain st' st1 where 1: "st1 \<in> den path_shape (True, p, Map.empty)"
      and 2: "st' \<in> den (Seq Eol Eps) st1" by blast
    from 1 obtain a bb e v where 3: "st1 = (False, v, Map.empty)"
      "p = a @ ''/'' @ bb @ ''.'' @ e @ v" "shape_parts a bb e"
      unfolding in_den_path_shape by blast
    from 2 3(1) have "v = []" by (simp split: if_splits)
    with 3 show ?R by auto
  next
    assume ?R
    then obtain a bb e where r: "p = a @ ''/'' @ bb @ ''.'' @ e" "shape_parts a bb e" by blast
    then have "(False, [], Map.empty) \<in> den path_shape (True, p, Map.empty)"
      unfolding in_den_path_shape by (intro exI [of _ a] exI [of _ bb] exI [of _ e] exI [of _ "[]"]) simp
    moreover have "(False, [], Map.empty) \<in> den (Seq Eol Eps) (False, [], Map.empty)" by simp
    ultimately show "\<exists>st' st1. st1 \<in> den path_shape (True, p, Map.empty)
                      \<and> st' \<in> den (Seq Eol Eps) st1" by blast
  qed
  finally show ?thesis .
qed

lemma startsWith_iff: "startsWith s p = (\<exists>v. s = p @ v)"
proof
  assume "startsWith s p"
  then have "s = p @ drop (length p) s"
    unfolding startsWith_def by (metis append_take_drop_id)
  then show "\<exists>v. s = p @ v" ..
next
  assume "\<exists>v. s = p @ v"
  then show "startsWith s p" by (auto simp add: startsWith_def)
qed

lemma includes_str_iff: "includes_str s t = (\<exists>u v. s = u @ t @ v)"
proof (induction s)
  case Nil
  then show ?case by simp
next
  case (Cons x xs)
  show ?case
  proof
    assume "includes_str (x # xs) t"
    then consider "startsWith (x # xs) t" | "includes_str xs t" by auto
    then show "\<exists>u v. x # xs = u @ t @ v"
    proof cases
      case 1
      then obtain v where "x # xs = t @ v" unfolding startsWith_iff ..
      then have "x # xs = [] @ t @ v" by simp
      then show ?thesis by blast
    next
      case 2
      with Cons.IH obtain u v where "xs = u @ t @ v" by blast
      then have "x # xs = (x # u) @ t @ v" by simp
      then show ?thesis by blast
    qed
  next
    assume "\<exists>u v. x # xs = u @ t @ v"
    then obtain u v where uv: "x # xs = u @ t @ v" by blast
    show "includes_str (x # xs) t"
    proof (cases u)
      case Nil
      with uv have "startsWith (x # xs) t" unfolding startsWith_iff by auto
      then show ?thesis by simp
    next
      case (Cons y u')
      with uv have "xs = u' @ t @ v" by simp
      with Cons.IH have "includes_str xs t" by blast
      then show ?thesis by simp
    qed
  qed
qed

lemma filter_none: "list_all P xs \<Longrightarrow> \<not> P a \<Longrightarrow> filter (\<lambda>ch. ch = a) xs = []"
  by (induction xs) auto

lemma not_in_set: "list_all P xs \<Longrightarrow> \<not> P a \<Longrightarrow> a \<notin> set xs"
  by (induction xs) auto

lemma class_facts:
  "\<not> is_word_hyphen CHR ''.''" "\<not> is_word_slash_hyphen CHR ''.''" "\<not> is_word CHR ''.''"
  "\<not> is_word_hyphen CHR ''/''" "\<not> is_word CHR ''/''"
  "\<not> is_word_hyphen (CHR 0x5C)" "\<not> is_word_slash_hyphen (CHR 0x5C)" "\<not> is_word (CHR 0x5C)"
  by (simp_all add: is_word_hyphen_def is_word_slash_hyphen_def is_word_def less_eq_char_def)

lemma shape_safe:
  assumes p: "p = a @ ''/'' @ bb @ ''.'' @ e" and sh: "shape_parts a bb e"
  shows "\<not> includes_str p ''..''" "\<not> startsWith p ''/''" "\<not> includes_str p [CHR 0x5C]"
proof -
  from sh have a: "a \<noteq> []" "list_all is_word_hyphen a"
    and bb: "list_all is_word_slash_hyphen bb" and e: "list_all is_word e"
    by (simp_all add: shape_parts_def)
  have dots: "filter (\<lambda>ch. ch = CHR ''.'') p = ''.''"
    unfolding p using filter_none [OF a(2) class_facts(1)] filter_none [OF bb class_facts(2)]
      filter_none [OF e class_facts(3)]
    by simp
  show "\<not> includes_str p ''..''"
  proof
    assume "includes_str p ''..''"
    then obtain u v where "p = u @ ''..'' @ v" unfolding includes_str_iff by blast
    then have "length (filter (\<lambda>ch. ch = CHR ''.'') p) \<ge> 2" by simp
    with dots show False by simp
  qed
  show "\<not> startsWith p ''/''"
  proof
    assume "startsWith p ''/''"
    then obtain v where v: "p = ''/'' @ v" unfolding startsWith_iff ..
    from a(1) obtain x a' where "a = x # a'" by (cases a) auto
    with v p a(2) have "is_word_hyphen CHR ''/''" by simp
    with class_facts(4) show False by simp
  qed
  show "\<not> includes_str p [CHR 0x5C]"
  proof
    assume "includes_str p [CHR 0x5C]"
    then obtain u v where "p = u @ [CHR 0x5C] @ v" unfolding includes_str_iff by blast
    then have "CHR 0x5C \<in> set p" by simp
    then have "CHR 0x5C \<in> set a \<or> CHR 0x5C \<in> set bb \<or> CHR 0x5C \<in> set e"
      unfolding p by auto
    with not_in_set [OF a(2) class_facts(6)] not_in_set [OF bb class_facts(7)]
      not_in_set [OF e class_facts(8)]
    show False by blast
  qed
qed

lemma isValidPath_iff:
  "isValidPath p = (\<exists>a bb e. p = a @ ''/'' @ bb @ ''.'' @ e \<and> shape_parts a bb e)"
proof
  assume "isValidPath p"
  then have "test VALID_PATH_REGEX p" by (simp add: isValidPath_def)
  then show "\<exists>a bb e. p = a @ ''/'' @ bb @ ''.'' @ e \<and> shape_parts a bb e"
    unfolding test_valid_regex .
next
  assume r: "\<exists>a bb e. p = a @ ''/'' @ bb @ ''.'' @ e \<and> shape_parts a bb e"
  then obtain a bb e where p: "p = a @ ''/'' @ bb @ ''.'' @ e" "shape_parts a bb e" by blast
  from r have "test VALID_PATH_REGEX p" unfolding test_valid_regex .
  with shape_safe [OF p] show "isValidPath p" by (simp add: isValidPath_def)
qed

text \<open>
  Claim C1, as stated, fails in both directions: the validator accepts a path with an
  empty segment, and it rejects a path of a single segment, which has the stated shape and
  none of the three forbidden features.
\<close>

theorem valid_path_shape_counterexample:
  "isValidPath ''a//b.ts'' \<and> \<not> spec_path_shape ''a//b.ts'' \<and>
   \<not> isValidPath ''x.py'' \<and> spec_path_shape ''x.py'' \<and> \<not> includes_str ''x.py'' ''..'' \<and>
   \<not> startsWith ''x.py'' ''/'' \<and> \<not> includes_str ''x.py'' [CHR 0x5C]"
  by (simp add: spec_path_shape_def isValidPath_def test_def str_defs rx_defs cls_defs)

text \<open>
  Claim C1, amended. The validator accepts exactly the texts made of a non-empty run of
  word characters and hyphens, a forward slash, a non-empty run of word characters,
  hyphens and forward slashes, a dot, and a non-empty run of word characters. Such a text
  has no \<open>..\<close>, no leading slash and no backslash, so a text with one of these is rejected.
\<close>

theorem valid_path_iff_shape:
  "isValidPath p =
     (\<exists>a bb e. p = a @ ''/'' @ bb @ ''.'' @ e \<and>
        a \<noteq> [] \<and> list_all is_word_hyphen a \<and>
        bb \<noteq> [] \<and> list_all is_word_slash_hyphen bb \<and>
        e \<noteq> [] \<and> list_all is_word e) \<and>
   (includes_str p ''..'' \<or> startsWith p ''/'' \<or> includes_str p [CHR 0x5C]
      \<longrightarrow> \<not> isValidPath p)"
proof
  show "isValidPath p =
     (\<exists>a bb e. p = a @ ''/'' @ bb @ ''.'' @ e \<and>
        a \<noteq> [] \<and> list_all is_word_hyphen a \<and>
        bb \<noteq> [] \<and> list_all is_word_slash_hyphen bb \<and>
        e \<noteq> [] \<and> list_all is_word e)"
    unfolding isValidPath_iff shape_parts_def ..
  show "includes_str p ''..'' \<or> startsWith p ''/'' \<or> includes_str p [CHR 0x5C]
      \<longrightarrow> \<not> isValidPath p"
    by (auto simp add: isValidPath_def)
qed

theorem valid_path_iff_shape_witness:
  "includes_str ''src/../x.ts'' ''..'' \<and> \<not> isValidPath ''src/../x.ts'' \<and>
   isValidPath ''src/a-b/c_d.ts''"
proof -
  have h: "includes_str ''src/../x.ts'' ''..''" by (simp add: str_defs)
  have "isValidPath ''src/a-b/c_d.ts''"
    by (simp add: isValidPath_def test_def str_defs rx_defs cls_defs)
  with valid_path_iff_shape [of "''src/../x.ts''"] h show ?thesis by blast
qed

section \<open>The Block Segmenter\<close>

lemma seg_step_inside:
  "inCodeBlock st \<Longrightarrow> \<not> is_fence_line line \<Longrightarrow>
   seg_step classify st line = st\<lparr>codeBlockContent := codeBlockContent st @ line @ [CHR 0x0A]\<rparr>"
  by (simp add: seg_step_def)

lemma blocks_seg_step:
  "blocks (seg_step classify st line) =
     (if \<not> is_fence_line line \<and> \<not> inCodeBlock st \<and> isPath (classify line)
      then (case pending_block st of Some b \<Rightarrow> blocks st @ [b] | None \<Rightarrow> blocks st)
      else blocks st)"
  by (auto simp add: seg_step_def Let_def split: option.splits)

lemma pending_block_Some:
  "pending_block st = Some b \<Longrightarrow>
   currentPath st = Some (path b) \<and> path b \<noteq> [] \<and> currentContent st \<noteq> [] \<and>
   content b = trim (join_nl (currentContent st))"
  by (auto simp add: pending_block_def split: option.splits if_splits)

lemma blocks_of_run:
  "b \<in> set (blocks (foldl (seg_step classify) st0 ls)) \<Longrightarrow>
   b \<in> set (blocks st0) \<or>
   (\<exists>n < length ls. pending_block (foldl (seg_step classify) st0 (take n ls)) = Some b)"
proof (induction ls rule: rev_induct)
  case Nil
  then show ?case by simp
next
  case (snoc l ls)
  let ?st = "foldl (seg_step classify) st0 ls"
  from snoc.prems have "b \<in> set (blocks (seg_step classify ?st l))" by simp
  then consider (old) "b \<in> set (blocks ?st)" | (new) "pending_block ?st = Some b"
    by (auto simp add: blocks_seg_step split: if_splits option.splits)
  then show ?case
  proof cases
    case old
    from snoc.IH [OF old] show ?thesis
      by (auto simp add: less_Suc_eq)
  next
    case new
    then show ?thesis by (auto intro!: exI [of _ "length ls"])
  qed
qed

lemma seg_finish_ignores_fence:
  "seg_finish (st\<lparr>inCodeBlock := x, codeBlockContent := y\<rparr>) = seg_finish st"
  by (simp add: seg_finish_def pending_block_def split: option.splits)

lemma run_inside_fence:
  "inCodeBlock st \<Longrightarrow> \<forall>l\<in>set ls. \<not> is_fence_line l \<Longrightarrow>
   \<exists>y. foldl (seg_step classify) st ls = st\<lparr>codeBlockContent := y\<rparr>"
proof (induction ls arbitrary: st)
  case Nil
  show ?case by (rule exI [of _ "codeBlockContent st"]) simp
next
  case (Cons l ls)
  let ?st = "st\<lparr>codeBlockContent := codeBlockContent st @ l @ [CHR 0x0A]\<rparr>"
  have step: "seg_step classify st l = ?st"
    using Cons.prems by (simp add: seg_step_inside)
  have "inCodeBlock ?st" using Cons.prems by simp
  from Cons.IH [OF this] Cons.prems obtain y where
    "foldl (seg_step classify) ?st ls = ?st\<lparr>codeBlockContent := y\<rparr>" by auto
  then show ?case by (auto simp add: step)
qed

lemma seg_lines_unclosed:
  assumes "\<not> inCodeBlock (foldl (seg_step parseComment) seg_init pre)"
    and "is_fence_line f" and "\<forall>l\<in>set inner. \<not> is_fence_line l"
  shows "seg_lines (pre @ f # inner) = seg_lines pre"
proof -
  let ?st = "foldl (seg_step parseComment) seg_init pre"
  have "seg_step parseComment ?st f = ?st\<lparr>inCodeBlock := True\<rparr>"
    using assms(1,2) by (simp add: seg_step_def)
  moreover obtain y where
    "foldl (seg_step parseComment) (?st\<lparr>inCodeBlock := True\<rparr>) inner
       = ?st\<lparr>inCodeBlock := True\<rparr>\<lparr>codeBlockContent := y\<rparr>"
    using run_inside_fence [of "?st\<lparr>inCodeBlock := True\<rparr>" inner parseComment] assms(3)
    by auto
  ultimately show ?thesis
    by (simp add: seg_lines_def seg_finish_ignores_fence)
qed

lemma split_acc_append:
  "CHR 0x0A \<notin> set l \<Longrightarrow> split_acc cur (l @ r) = split_acc (cur @ l) r"
  by (induction l arbitrary: cur) auto

lemma split_nl_join_nl:
  "ls \<noteq> [] \<Longrightarrow> \<forall>l\<in>set ls. CHR 0x0A \<notin> set l \<Longrightarrow> split_nl (join_nl ls) = ls"
proof (induction ls rule: join_nl.induct)
  case 1
  then show ?case by simp
next
  case (2 x)
  then show ?case using split_acc_append [of x "[]" "[]"] by (simp add: split_nl_def)
next
  case (3 x y ys)
  then show ?case
    using split_acc_append [of x "[]" "CHR 0x0A # join_nl (y # ys)"]
    by (simp add: split_nl_def)
qed

lemma scan_state_snoc: "n \<le> length ls \<Longrightarrow> scan_state (ls @ [l]) n = scan_state ls n"
  by (simp add: scan_state_def)

lemma declares_at_snoc: "n < length ls \<Longrightarrow> declares_at (ls @ [l]) n = declares_at ls n"
  by (simp add: declares_at_def scan_state_snoc nth_append)

lemma declares_at_last:
  "declares_at (ls @ [l]) (length ls) =
     (\<not> is_fence_line l \<and> \<not> inCodeBlock (scan_state ls (length ls)) \<and> isPath (parseComment l))"
  by (simp add: declares_at_def scan_state_snoc)

lemma set_blocks_scan:
  "set (blocks (scan_state ls (length ls))) =
     {b. \<exists>n. declares_at ls n \<and> pending_block (scan_state ls n) = Some b}"
proof (induction ls rule: rev_induct)
  case Nil
  show ?case by (simp add: scan_state_def seg_init_def declares_at_def)
next
  case (snoc l ls)
  let ?st = "scan_state ls (length ls)"
  have full: "scan_state (ls @ [l]) (length (ls @ [l])) = seg_step parseComment ?st l"
    by (simp add: scan_state_def)
  have old: "{b. \<exists>n. n < length ls \<and> declares_at (ls @ [l]) n
                   \<and> pending_block (scan_state (ls @ [l]) n) = Some b}
             = set (blocks ?st)"
  proof -
    have "{b. \<exists>n. n < length ls \<and> declares_at (ls @ [l]) n
                   \<and> pending_block (scan_state (ls @ [l]) n) = Some b}
          = {b. \<exists>n. n < length ls \<and> declares_at ls n \<and> pending_block (scan_state ls n) = Some b}"
      by (auto simp add: declares_at_snoc scan_state_snoc)
    also have "\<dots> = {b. \<exists>n. declares_at ls n \<and> pending_block (scan_state ls n) = Some b}"
      by (auto simp add: declares_at_def)
    finally show ?thesis using snoc.IH by simp
  qed
  have split: "{b. \<exists>n. declares_at (ls @ [l]) n \<and> pending_block (scan_state (ls @ [l]) n) = Some b}
     = {b. \<exists>n. n < length ls \<and> declares_at (ls @ [l]) n
                   \<and> pending_block (scan_state (ls @ [l]) n) = Some b}
       \<union> {b. declares_at (ls @ [l]) (length ls) \<and> pending_block ?st = Some b}"
    (is "?A = ?B \<union> ?C")
  proof
    show "?A \<subseteq> ?B \<union> ?C"
    proof
      fix b assume "b \<in> ?A"
      then obtain n where n: "declares_at (ls @ [l]) n"
        "pending_block (scan_state (ls @ [l]) n) = Some b" by blast
      from n(1) have "n < length ls \<or> n = length ls" by (auto simp add: declares_at_def)
      then show "b \<in> ?B \<union> ?C"
      proof
        assume "n < length ls"
        with n show ?thesis by blast
      next
        assume e: "n = length ls"
        with n have "declares_at (ls @ [l]) (length ls)" "pending_block ?st = Some b"
          by (simp_all add: scan_state_snoc)
        then show ?thesis by blast
      qed
    qed
    show "?B \<union> ?C \<subseteq> ?A"
    proof
      fix b assume "b \<in> ?B \<union> ?C"
      then show "b \<in> ?A"
      proof
        assume "b \<in> ?B"
        then show ?thesis by blast
      next
        assume "b \<in> ?C"
        then have "declares_at (ls @ [l]) (length ls)"
          "pending_block (scan_state (ls @ [l]) (length ls)) = Some b"
          by (simp_all add: scan_state_snoc)
        then show ?thesis by blast
      qed
    qed
  qed
  have new: "set (blocks (seg_step parseComment ?st l))
     = set (blocks ?st) \<union> {b. declares_at (ls @ [l]) (length ls) \<and> pending_block ?st = Some b}"
    by (auto simp add: blocks_seg_step declares_at_last split: option.splits)
  show ?case unfolding full new split old ..
qed

lemma pending_block_iff:
  "(pending_block st = Some b) =
   (currentPath st = Some (path b) \<and> path b \<noteq> [] \<and> currentContent st \<noteq> [] \<and>
    content b = trim (join_nl (currentContent st)))"
  by (cases b) (auto simp add: pending_block_def split: option.splits)

text \<open>
  Claim C6, as stated, fails: inside a fenced block, a line with other text after three
  backticks is not a fence marker of the specification, yet it is not appended to the
  buffer of the fenced block: it closes the block.
\<close>

theorem inside_fence_counterexample:
  "inCodeBlock (foldl (seg_step parseComment) seg_init [''// src/a.ts'', ''```'', ''a'']) \<and>
   \<not> fence_marker_only (trim ''```js let x = 1;'') \<and>
   codeBlockContent (foldl (seg_step parseComment) seg_init [''// src/a.ts'', ''```'', ''a''])
     = ''a'' @ [CHR 0x0A] \<and>
   codeBlockContent
     (foldl (seg_step parseComment) seg_init [''// src/a.ts'', ''```'', ''a'', ''```js let x = 1;''])
     = [] \<and>
   \<not> inCodeBlock
     (foldl (seg_step parseComment) seg_init [''// src/a.ts'', ''```'', ''a'', ''```js let x = 1;''])"
  by (simp add: fence_marker_only_def seg_defs str_defs rx_defs cls_defs)

text \<open>
  Claim C6, amended. While the scan is inside a fenced block, the step does not depend on
  the classifier at all and it leaves the completed fragments and the declared path alone.
  A line whose trimmed text does not begin with three backticks is appended, with a
  newline, to the buffer of the fenced block. A line whose trimmed text begins with three
  backticks, whatever follows them, is not appended: it closes the block, and the buffer
  goes to the accumulator when a path is declared.
\<close>

theorem inside_fence_no_classification:
  "inCodeBlock st \<Longrightarrow>
   seg_step classify st line = seg_step classify' st line \<and>
   blocks (seg_step classify st line) = blocks st \<and>
   currentPath (seg_step classify st line) = currentPath st \<and>
   (\<not> is_fence_line line \<longrightarrow>
      seg_step classify st line
        = st\<lparr>codeBlockContent := codeBlockContent st @ line @ [CHR 0x0A]\<rparr>) \<and>
   (is_fence_line line \<longrightarrow>
      seg_step classify st line
        = st\<lparr>currentContent :=
               (if truthy (currentPath st) then currentContent st @ [codeBlockContent st]
                else currentContent st),
             codeBlockContent := [],
             inCodeBlock := False\<rparr>)"
  by (simp add: seg_step_def)

theorem inside_fence_no_classification_witness:
  "inCodeBlock (seg_init\<lparr>inCodeBlock := True\<rparr>) \<and>
   \<not> is_fence_line ''// src/a.ts'' \<and>
   isPath (parseComment ''// src/a.ts'') \<and>
   seg_step parseComment (seg_init\<lparr>inCodeBlock := True\<rparr>) ''// src/a.ts''
     = seg_init\<lparr>inCodeBlock := True, codeBlockContent := ''// src/a.ts'' @ [CHR 0x0A]\<rparr> \<and>
   is_fence_line ''```js let x = 1;'' \<and>
   seg_step parseComment (seg_init\<lparr>inCodeBlock := True\<rparr>) ''```js let x = 1;'' = seg_init"
proof -
  have h: "inCodeBlock (seg_init\<lparr>inCodeBlock := True\<rparr>)" by simp
  have f: "\<not> is_fence_line ''// src/a.ts''" "is_fence_line ''```js let x = 1;''"
    by (simp_all add: is_fence_line_def str_defs cls_defs)
  have p: "isPath (parseComment ''// src/a.ts'')"
    by (simp add: seg_defs str_defs rx_defs cls_defs)
  from inside_fence_no_classification [OF h, of parseComment "''// src/a.ts''" parseComment] f(1)
  have 1: "seg_step parseComment (seg_init\<lparr>inCodeBlock := True\<rparr>) ''// src/a.ts''
     = seg_init\<lparr>inCodeBlock := True,
          codeBlockContent := codeBlockContent (seg_init\<lparr>inCodeBlock := True\<rparr>)
             @ ''// src/a.ts'' @ [CHR 0x0A]\<rparr>"
    by simp
  from inside_fence_no_classification [OF h, of parseComment "''```js let x = 1;''" parseComment]
    f(2)
  have 2: "seg_step parseComment (seg_init\<lparr>inCodeBlock := True\<rparr>) ''```js let x = 1;''
     = seg_init\<lparr>inCodeBlock := True\<rparr>\<lparr>currentContent :=
               (if truthy (currentPath (seg_init\<lparr>inCodeBlock := True\<rparr>))
                then currentContent (seg_init\<lparr>inCodeBlock := True\<rparr>)
                       @ [codeBlockContent (seg_init\<lparr>inCodeBlock := True\<rparr>)]
                else currentContent (seg_init\<lparr>inCodeBlock := True\<rparr>)),
             codeBlockContent := [],
             inCodeBlock := False\<rparr>"
    by simp
  from 1 2 show ?thesis using h f p by (simp add: seg_init_def truthy_def)
qed

text \<open>
  Claim C7, as stated, fails: a line with other text after the three backticks toggles
  the fence state too.
\<close>

theorem fence_toggle_counterexample:
  "\<not> fence_marker_only (trim ''```js let x = 1;'') \<and>
   inCodeBlock (seg_step parseComment seg_init ''```js let x = 1;'') \<noteq> inCodeBlock seg_init"
  by (simp add: fence_marker_only_def seg_step_def seg_init_def is_fence_line_def str_defs
        cls_defs)

text \<open>
  Claim C7, amended. A line toggles the fence state exactly when its trimmed text begins
  with three backticks, whatever follows them.
\<close>

theorem fence_toggle_iff_prefix:
  "(inCodeBlock (seg_step classify st line) \<noteq> inCodeBlock st)
     = startsWith (trim line) ''```''"
  by (auto simp add: seg_step_def is_fence_line_def Let_def split: option.splits)

text \<open>
  Claim C8, as stated, fails: a path declaration followed by an empty line yields a
  fragment whose content is empty.
\<close>

theorem fragment_nonempty_counterexample:
  "splitIntoCodeBlocks (''// src/a.ts'' @ [CHR 0x0A]) = [\<lparr>path = ''src/a.ts'', content = []\<rparr>]"
  by (simp add: seg_defs str_defs rx_defs cls_defs)

text \<open>
  Claim C8, amended. The fragments of the output are exactly those finalized at a
  path-declaration line met outside every fenced block, or at the end of the input, at a
  point of the scan where a non-empty path is the declared one and the accumulator holds
  at least one piece (a line, the text of a closed fenced block or a description line).
  The content of the fragment is the pieces joined by newlines and trimmed; it can be
  empty.
\<close>

theorem fragment_from_pieces:
  "(b \<in> set (splitIntoCodeBlocks text)) =
   (\<exists>n. (n = length (split_nl text) \<or> declares_at (split_nl text) n) \<and>
        currentPath (scan_state (split_nl text) n) = Some (path b) \<and>
        path b \<noteq> [] \<and>
        currentContent (scan_state (split_nl text) n) \<noteq> [] \<and>
        content b = trim (join_nl (currentContent (scan_state (split_nl text) n))))"
proof -
  let ?ls = "split_nl text"
  let ?end = "scan_state ?ls (length ?ls)"
  have "set (splitIntoCodeBlocks text)
      = set (blocks ?end) \<union> {b. pending_block ?end = Some b}"
    by (auto simp add: splitIntoCodeBlocks_def seg_lines_def seg_finish_def scan_state_def
          split: option.splits)
  then have "(b \<in> set (splitIntoCodeBlocks text)) =
     (\<exists>n. (n = length ?ls \<or> declares_at ?ls n) \<and> pending_block (scan_state ?ls n) = Some b)"
    unfolding set_blocks_scan by blast
  then show ?thesis unfolding pending_block_iff .
qed

theorem fragment_from_pieces_witness:
  "declares_at (split_nl two_fragment_document) 4 \<and>
   \<lparr>path = ''src/a.ts'', content = ''x''\<rparr> \<in> set (splitIntoCodeBlocks two_fragment_document) \<and>
   length (split_nl two_fragment_document) = 6 \<and>
   \<lparr>path = ''src/b.ts'', content = ''y''\<rparr> \<in> set (splitIntoCodeBlocks two_fragment_document)"
proof -
  let ?ls = "split_nl two_fragment_document"
  have d: "declares_at ?ls 4"
    by (simp add: two_fragment_document_def declares_at_def scan_state_def seg_defs str_defs
          rx_defs cls_defs)
  have a: "currentPath (scan_state ?ls 4) = Some ''src/a.ts'' \<and>
           currentContent (scan_state ?ls 4) = [''x'' @ [CHR 0x0A]]"
    by (simp add: two_fragment_document_def scan_state_def seg_defs str_defs rx_defs cls_defs)
  have l: "length ?ls = 6"
    by (simp add: two_fragment_document_def str_defs)
  have b: "currentPath (scan_state ?ls 6) = Some ''src/b.ts'' \<and>
           currentContent (scan_state ?ls 6) = [''y'']"
    by (simp add: two_fragment_document_def scan_state_def seg_defs str_defs rx_defs cls_defs)
  have t: "trim (join_nl [''x'' @ [CHR 0x0A]]) = ''x''" "trim (join_nl [''y'']) = ''y''"
    by (simp_all add: str_defs cls_defs)
  have "\<lparr>path = ''src/a.ts'', content = ''x''\<rparr> \<in> set (splitIntoCodeBlocks two_fragment_document)"
    unfolding fragment_from_pieces using d a t by (intro exI [of _ 4]) simp
  moreover
  have "\<lparr>path = ''src/b.ts'', content = ''y''\<rparr> \<in> set (splitIntoCodeBlocks two_fragment_document)"
    unfolding fragment_from_pieces using l b t by (intro exI [of _ 6]) simp
  ultimately show ?thesis using d l by blast
qed

text \<open>
  Claim C10. If the lines end inside a fenced block that was opened and never closed,
  the extraction yields exactly what the lines before the opening fence yield: the text
  buffered for the unclosed block reaches no accumulator and no fragment.
\<close>

theorem unclosed_fence_discarded:
  "\<not> inCodeBlock (foldl (seg_step parseComment) seg_init pre) \<Longrightarrow>
   is_fence_line f \<Longrightarrow>
   \<forall>l\<in>set inner. \<not> is_fence_line l \<Longrightarrow>
   \<forall>l\<in>set (pre @ f # inner). CHR 0x0A \<notin> set l \<Longrightarrow>
   splitIntoCodeBlocks (join_nl (pre @ f # inner)) = seg_lines pre"
proof -
  assume a: "\<not> inCodeBlock (foldl (seg_step parseComment) seg_init pre)"
    "is_fence_line f" "\<forall>l\<in>set inner. \<not> is_fence_line l"
    and nl: "\<forall>l\<in>set (pre @ f # inner). CHR 0x0A \<notin> set l"
  have "split_nl (join_nl (pre @ f # inner)) = pre @ f # inner"
    using nl by (intro split_nl_join_nl) simp_all
  then show ?thesis
    using seg_lines_unclosed [OF a] by (simp add: splitIntoCodeBlocks_def)
qed

theorem unclosed_fence_discarded_witness:
  "splitIntoCodeBlocks
     (join_nl ([''// src/a.ts'', ''```'', ''x'', ''```''] @ ''```ts'' # [''// src/b.ts'', ''lost'']))
   = [\<lparr>path = ''src/a.ts'', content = ''x''\<rparr>]"
proof -
  have 1: "\<not> inCodeBlock (foldl (seg_step parseComment) seg_init
             [''// src/a.ts'', ''```'', ''x'', ''```''])"
    by (simp add: seg_defs str_defs rx_defs cls_defs)
  have 2: "is_fence_line ''```ts''"
    by (simp add: is_fence_line_def str_defs cls_defs)
  have 3: "\<forall>l\<in>set [''// src/b.ts'', ''lost'']. \<not> is_fence_line l"
    by (simp add: is_fence_line_def str_defs cls_defs)
  have 4: "\<forall>l\<in>set ([''// src/a.ts'', ''```'', ''x'', ''```''] @ ''```ts''
             # [''// src/b.ts'', ''lost'']). CHR 0x0A \<notin> set l"
    by simp
  have 5: "seg_lines [''// src/a.ts'', ''```'', ''x'', ''```'']
             = [\<lparr>path = ''src/a.ts'', content = ''x''\<rparr>]"
    by (simp add: seg_defs str_defs rx_defs cls_defs)
  from unclosed_fence_discarded [OF 1 2 3 4] 5 show ?thesis by simp
qed

section \<open>The Comment Classifier and the Coordinator on a document\<close>

lemma try_patterns_none:
  "\<forall>pat\<in>set ps. \<not> pattern_accepts pat line \<Longrightarrow> try_patterns ps line = None"
  by (induction ps) (auto simp add: pattern_accepts_def split: option.splits)

lemma try_patterns_first:
  "\<forall>q\<in>set ps1. \<not> pattern_accepts q line \<Longrightarrow>
   exec pat line = Some (m0, groups, after) \<Longrightarrow> groups 1 = Some p \<Longrightarrow> isValidPath p \<Longrightarrow>
   try_patterns (ps1 @ pat # ps2) line = Some \<lparr>ppath = Some p, isPath = True, comment = groups 2\<rparr>"
  by (induction ps1) (auto simp add: pattern_accepts_def split: option.splits)

lemma try_patterns_valid:
  "try_patterns ps line = Some r \<Longrightarrow> isPath r \<and> (\<exists>p. ppath r = Some p \<and> isValidPath p)"
  by (induction ps) (auto split: option.splits if_splits)

lemma den_keeps_group:
  "st' \<in> den r st \<Longrightarrow> no_group n r \<Longrightarrow> snd (snd st') n = snd (snd st) n"
proof (induction r arbitrary: st st')
  case (Chr a)
  obtain b s c where st: "st = (b, s, c)" by (cases st)
  with Chr show ?case unfolding st in_den_Chr by auto
next
  case (Cls p)
  obtain b s c where st: "st = (b, s, c)" by (cases st)
  with Cls show ?case by auto
next
  case Eps
  then show ?case by simp
next
  case (Seq r1 r2)
  from Seq.prems obtain st1 where "st1 \<in> den r1 st" "st' \<in> den r2 st1"
    unfolding in_den_Seq by blast
  with Seq.IH(1) [of st1 st] Seq.IH(2) [of st' st1] Seq.prems(2) show ?case by simp
next
  case (Star p)
  obtain b s c where st: "st = (b, s, c)" by (cases st)
  with Star show ?case unfolding st in_den_Star by auto
next
  case (Plus p)
  obtain b s c where st: "st = (b, s, c)" by (cases st)
  with Plus show ?case unfolding st in_den_Plus by auto
next
  case (LazyStar p)
  obtain b s c where st: "st = (b, s, c)" by (cases st)
  with LazyStar show ?case unfolding st in_den_LazyStar by auto
next
  case (Opt r)
  obtain b s c where st: "st = (b, s, c)" by (cases st)
  from Opt.prems st have "st' = st \<or> st' \<in> den r st" by auto
  with Opt.IH [of st' st] Opt.prems(2) show ?case by auto
next
  case (Grp m r)
  obtain b s c where st: "st = (b, s, c)" by (cases st)
  from Grp.prems(1) st obtain st1 x where st1: "st1 \<in> den r st"
    "snd (snd st') = (snd (snd st1))(m \<mapsto> x)"
    by (auto simp add: image_iff)
  with Grp.IH [of st1 st] Grp.prems(2) show ?case by simp
next
  case Bol
  obtain b s c where st: "st = (b, s, c)" by (cases st)
  with Bol show ?case by (auto split: if_splits)
next
  case Eol
  obtain b s c where st: "st = (b, s, c)" by (cases st)
  with Eol show ?case by (auto split: if_splits)
qed

lemma den_Grp_path_shape:
  assumes "st1 \<in> den (Grp 1 path_shape) st"
  shows "\<exists>p. snd (snd st1) 1 = Some p \<and> isValidPath p"
proof -
  obtain b s c where st: "st = (b, s, c)" by (cases st)
  from assms obtain b' s' c' where 1: "(b', s', c') \<in> den path_shape (b, s, c)"
    "st1 = (b', s', c'(1 \<mapsto> take (length s - length s') s))"
    unfolding st in_den_Grp by blast
  from 1(1) obtain a bb e v where 2: "(b', s', c') = (False, v, c)"
    "s = a @ ''/'' @ bb @ ''.'' @ e @ v" "shape_parts a bb e"
    unfolding in_den_path_shape by blast
  from 2(1,2) have "take (length s - length s') s = a @ ''/'' @ bb @ ''.'' @ e" by simp
  with 2(3) have "isValidPath (take (length s - length s') s)"
    unfolding isValidPath_iff by blast
  with 1(2) show ?thesis by simp
qed

lemma den_after_path:
  assumes d: "st' \<in> den (Seq (Grp 1 path_shape) r) st" and n: "no_group 1 r"
  shows "\<exists>p. snd (snd st') 1 = Some p \<and> isValidPath p"
proof -
  from d obtain st1 where 1: "st1 \<in> den (Grp 1 path_shape) st" "st' \<in> den r st1"
    unfolding in_den_Seq [of st' "Grp 1 path_shape"] by blast
  from den_keeps_group [OF 1(2) n] den_Grp_path_shape [OF 1(1)] show ?thesis by simp
qed

lemma den_skip_prefix:
  assumes d: "st' \<in> den (Seq r1 r2) st" and q: "\<And>st1. st' \<in> den r2 st1 \<Longrightarrow> Q"
  shows Q
proof -
  from d obtain st1 where "st' \<in> den r2 st1" unfolding in_den_Seq [of st' r1] by blast
  from q [OF this] show ?thesis .
qed

lemma path_patterns_den:
  assumes p: "pat \<in> set PATH_PATTERNS" and d: "st' \<in> den pat st"
  shows "\<exists>p. snd (snd st') 1 = Some p \<and> isValidPath p"
proof -
  let ?o = "Opt (cat [Star is_space, Chr CHR '':'', Star is_space, Grp 2 (Plus is_dot)])"
  from p have "pat = Seq (lit ''//'') (Seq (Star is_space) (Seq (Grp 1 path_shape) (Seq ?o Eps)))
    \<or> pat = Seq (lit ''//'') (Seq (Star is_space) (Seq (lit ''@file'') (Seq (Plus is_space)
              (Seq (Grp 1 path_shape) Eps))))
    \<or> pat = Seq (lit ''//'') (Seq (Star is_space) (Seq (lit ''filepath:'') (Seq (Star is_space)
              (Seq (Grp 1 path_shape) Eps))))"
    by (simp add: PATH_PATTERNS_def cat_def)
  then show ?thesis
  proof (elim disjE)
    assume e: "pat = Seq (lit ''//'') (Seq (Star is_space) (Seq (Grp 1 path_shape) (Seq ?o Eps)))"
    from d [unfolded e] show ?thesis
      apply (rule den_skip_prefix)
      apply (erule den_skip_prefix)
      apply (erule den_after_path)
      apply (simp add: cat_def)
      done
  next
    assume e: "pat = Seq (lit ''//'') (Seq (Star is_space) (Seq (lit ''@file'') (Seq (Plus is_space)
              (Seq (Grp 1 path_shape) Eps))))"
    from d [unfolded e] show ?thesis
      apply (rule den_skip_prefix)
      apply (erule den_skip_prefix)
      apply (erule den_skip_prefix)
      apply (erule den_skip_prefix)
      apply (erule den_after_path)
      apply simp
      done
  next
    assume e: "pat = Seq (lit ''//'') (Seq (Star is_space) (Seq (lit ''filepath:'') (Seq (Star is_space)
              (Seq (Grp 1 path_shape) Eps))))"
    from d [unfolded e] show ?thesis
      apply (rule den_skip_prefix)
      apply (erule den_skip_prefix)
      apply (erule den_skip_prefix)
      apply (erule den_skip_prefix)
      apply (erule den_after_path)
      apply simp
      done
  qed
qed

lemma path_patterns_capture_valid:
  assumes p: "pat \<in> set PATH_PATTERNS" and e: "exec pat line = Some (m0, groups, after)"
  shows "\<exists>p. groups 1 = Some p \<and> isValidPath p"
proof -
  from e have "search pat True line = Some (m0, groups, after)" by (simp add: exec_def)
  from search_sound [OF this] obtain pre :: string and s1 b' where
    "mt pat Some (pre = [], s1, Map.empty) = Some (b', after, groups)" by auto
  from mt_sound [OF this] have "(b', after, groups) \<in> den pat (pre = [], s1, Map.empty)"
    by simp
  from path_patterns_den [OF p this] show ?thesis by simp
qed

text \<open>
  Claim C4. \<open>parseComment\<close> is the classifier over the three patterns of the class. For
  every list of patterns and every line whose trimmed text begins with the comment marker:
  a pattern that matches but captures a path that fails the validator gives nothing, and
  the classification is that of the remaining patterns; if no pattern both matches and
  captures a path that passes the validator, the result is the plain comment made of the
  text after the marker, trimmed; the first pattern, in the order of the list, that matches
  with a validated path gives the path declaration; and a path declaration always carries
  a validated path. With the three patterns of the class the first case does not occur,
  since whatever they capture passes the validator (\<open>path_patterns_capture_valid\<close>); the
  example after the theorem takes it with \<open>loose_pattern\<close>.
\<close>

theorem classifier_fall_through:
  "parseComment line0 = parseComment_with PATH_PATTERNS line0 \<and>
   (startsWith (trim line0) ''//'' \<longrightarrow>
      (\<forall>m0 groups after p.
         exec pat (trim line0) = Some (m0, groups, after) \<and> groups 1 = Some p \<and>
         \<not> isValidPath p \<longrightarrow>
         parseComment_with (pat # rest) line0 = parseComment_with rest line0) \<and>
      ((\<forall>q\<in>set ps. \<not> pattern_accepts q (trim line0)) \<longrightarrow>
         parseComment_with ps line0
           = \<lparr>ppath = None, isPath = False, comment = Some (trim (drop 2 (trim line0)))\<rparr>) \<and>
      (\<forall>ps1 pt ps2 m0 groups after p.
         ps = ps1 @ pt # ps2 \<and> (\<forall>q\<in>set ps1. \<not> pattern_accepts q (trim line0)) \<and>
         exec pt (trim line0) = Some (m0, groups, after) \<and> groups 1 = Some p \<and> isValidPath p \<longrightarrow>
         parseComment_with ps line0 = \<lparr>ppath = Some p, isPath = True, comment = groups 2\<rparr>) \<and>
      (isPath (parseComment_with ps line0) \<longrightarrow>
         (\<exists>p. ppath (parseComment_with ps line0) = Some p \<and> isValidPath p)))"
proof (intro conjI impI allI)
  show "parseComment line0 = parseComment_with PATH_PATTERNS line0"
    by (simp add: parseComment_def parseComment_with_def)
next
  fix m0 groups after p
  assume "exec pat (trim line0) = Some (m0, groups, after) \<and> groups 1 = Some p \<and>
         \<not> isValidPath p"
  then have e: "try_patterns (pat # rest) (trim line0) = try_patterns rest (trim line0)" by simp
  show "parseComment_with (pat # rest) line0 = parseComment_with rest line0"
    unfolding parseComment_with_def Let_def e ..
next
  assume sw: "startsWith (trim line0) ''//''"
    and "\<forall>q\<in>set ps. \<not> pattern_accepts q (trim line0)"
  from try_patterns_none [OF this(2)] sw
  show "parseComment_with ps line0
        = \<lparr>ppath = None, isPath = False, comment = Some (trim (drop 2 (trim line0)))\<rparr>"
    by (simp add: parseComment_with_def)
next
  fix ps1 pt ps2 m0 groups after p
  assume sw: "startsWith (trim line0) ''//''"
    and a: "ps = ps1 @ pt # ps2 \<and> (\<forall>q\<in>set ps1. \<not> pattern_accepts q (trim line0)) \<and>
      exec pt (trim line0) = Some (m0, groups, after) \<and> groups 1 = Some p \<and> isValidPath p"
  then have "try_patterns (ps1 @ pt # ps2) (trim line0)
        = Some \<lparr>ppath = Some p, isPath = True, comment = groups 2\<rparr>"
    by (intro try_patterns_first) auto
  with a sw show "parseComment_with ps line0 = \<lparr>ppath = Some p, isPath = True, comment = groups 2\<rparr>"
    by (simp add: parseComment_with_def)
next
  assume sw: "startsWith (trim line0) ''//''" and ip: "isPath (parseComment_with ps line0)"
  then obtain r where r: "try_patterns ps (trim line0) = Some r" "parseComment_with ps line0 = r"
    by (auto simp add: parseComment_with_def Let_def split: option.splits)
  from try_patterns_valid [OF r(1)] r(2)
  show "\<exists>p. ppath (parseComment_with ps line0) = Some p \<and> isValidPath p" by simp
qed

theorem classifier_fall_through_witness:
  "startsWith (trim ''// ../etc/x.txt'') ''//'' \<and>
   \<not> pattern_accepts loose_pattern (trim ''// ../etc/x.txt'') \<and>
   \<not> isValidPath ''../etc/x.txt'' \<and>
   parseComment_with [loose_pattern] ''// ../etc/x.txt'' = parseComment_with [] ''// ../etc/x.txt'' \<and>
   parseComment_with [loose_pattern] ''// ../etc/x.txt''
     = \<lparr>ppath = None, isPath = False, comment = Some ''../etc/x.txt''\<rparr> \<and>
   startsWith (trim ''// @file utils/x.py'') ''//'' \<and>
   \<not> isValidPath ''@file'' \<and>
   parseComment_with [loose_pattern, PATH_PATTERNS ! 1] ''// @file utils/x.py''
     = parseComment_with [PATH_PATTERNS ! 1] ''// @file utils/x.py'' \<and>
   parseComment_with [loose_pattern, PATH_PATTERNS ! 1] ''// @file utils/x.py''
     = \<lparr>ppath = Some ''utils/x.py'', isPath = True, comment = None\<rparr> \<and>
   isValidPath ''utils/x.py''"
proof -
  let ?m = "''// ../etc/x.txt''"
  let ?l = "''// @file utils/x.py''"
  have sw: "startsWith (trim ?m) ''//''" "startsWith (trim ?l) ''//''"
    by (simp_all add: str_defs cls_defs)
  have inv: "\<not> isValidPath ''../etc/x.txt''" "\<not> isValidPath ''@file''"
    by (simp_all add: isValidPath_def test_def str_defs rx_defs cls_defs)
  have "case exec loose_pattern (trim ?m) of
          None \<Rightarrow> False
        | Some (m0, groups, after) \<Rightarrow> groups 1 = Some ''../etc/x.txt''"
    by (simp add: exec_def loose_pattern_def is_nonspace_def str_defs rx_defs cls_defs)
  then obtain m0 groups after where
    ex1: "exec loose_pattern (trim ?m) = Some (m0, groups, after)"
    "groups 1 = Some ''../etc/x.txt''"
    by (auto split: option.splits)
  have "case exec loose_pattern (trim ?l) of
          None \<Rightarrow> False
        | Some (m0, groups, after) \<Rightarrow> groups 1 = Some ''@file''"
    by (simp add: exec_def loose_pattern_def is_nonspace_def str_defs rx_defs cls_defs)
  then obtain m0' groups' after' where
    ex2: "exec loose_pattern (trim ?l) = Some (m0', groups', after')"
    "groups' 1 = Some ''@file''"
    by (auto split: option.splits)
  have "case exec (PATH_PATTERNS ! 1) (trim ?l) of
          None \<Rightarrow> False
        | Some (m0, groups, after) \<Rightarrow> groups 1 = Some ''utils/x.py'' \<and> groups 2 = None"
    by (simp add: exec_def str_defs rx_defs cls_defs)
  then obtain m1 groups1 after1 where
    ex3: "exec (PATH_PATTERNS ! 1) (trim ?l) = Some (m1, groups1, after1)"
    "groups1 1 = Some ''utils/x.py''" "groups1 2 = None"
    by (auto split: option.splits)
  have v: "isValidPath ''utils/x.py''"
    by (simp add: isValidPath_def test_def str_defs rx_defs cls_defs)
  have na1: "\<not> pattern_accepts loose_pattern (trim ?m)"
    using ex1 inv(1) by (simp add: pattern_accepts_def)
  have na2: "\<not> pattern_accepts loose_pattern (trim ?l)"
    using ex2 inv(2) by (simp add: pattern_accepts_def)
  have t: "trim (drop 2 (trim ?m)) = ''../etc/x.txt''" by (simp add: str_defs cls_defs)
  note skip1 = classifier_fall_through [of ?m loose_pattern "[]" "[loose_pattern]",
      THEN conjunct2, rule_format, OF sw(1), THEN conjunct1, rule_format,
      of m0 groups after "''../etc/x.txt''"]
  note none1 = classifier_fall_through [of ?m loose_pattern "[]" "[loose_pattern]",
      THEN conjunct2, rule_format, OF sw(1), THEN conjunct2, THEN conjunct1, rule_format]
  note skip2 = classifier_fall_through [of ?l loose_pattern "[PATH_PATTERNS ! 1]"
        "[loose_pattern, PATH_PATTERNS ! 1]",
      THEN conjunct2, rule_format, OF sw(2), THEN conjunct1, rule_format,
      of m0' groups' after' "''@file''"]
  note first2 = classifier_fall_through [of ?l loose_pattern "[PATH_PATTERNS ! 1]"
        "[loose_pattern, PATH_PATTERNS ! 1]",
      THEN conjunct2, rule_format, OF sw(2), THEN conjunct2, THEN conjunct2, THEN conjunct1,
      rule_format, of "[loose_pattern]" "PATH_PATTERNS ! 1" "[]" m1 groups1 after1 "''utils/x.py''"]
  note valid2 = classifier_fall_through [of ?l loose_pattern "[PATH_PATTERNS ! 1]"
        "[loose_pattern, PATH_PATTERNS ! 1]",
      THEN conjunct2, rule_format, OF sw(2), THEN conjunct2, THEN conjunct2, THEN conjunct2,
      rule_format]
  from skip1 ex1 inv(1) have 1: "parseComment_with [loose_pattern] ?m = parseComment_with [] ?m"
    by simp
  from none1 na1 t have 2: "parseComment_with [loose_pattern] ?m
      = \<lparr>ppath = None, isPath = False, comment = Some ''../etc/x.txt''\<rparr>"
    by simp
  from skip2 ex2 inv(2) have 3: "parseComment_with [loose_pattern, PATH_PATTERNS ! 1] ?l
      = parseComment_with [PATH_PATTERNS ! 1] ?l"
    by simp
  from first2 na2 ex3 v have 4: "parseComment_with [loose_pattern, PATH_PATTERNS ! 1] ?l
      = \<lparr>ppath = Some ''utils/x.py'', isPath = True, comment = None\<rparr>"
    by simp
  from valid2 4 have 5: "isValidPath ''utils/x.py''" by simp
  from sw inv na1 1 2 3 4 5 show ?thesis by simp
qed

text \<open>
  Claim C5. The document of one \<open>@file utils/x.py\<close> directive followed by a fenced block
  that holds \<open>def f(): pass\<close> (with or without a language tag and a final newline) yields
  exactly one record: the output directory joined with \<open>utils/x.py\<close>, language
  \<open>python\<close>, content \<open>def f(): pass\<close>.
\<close>

theorem file_directive_end_to_end:
  "extractFiles pm options
     (join_nl [''// @file utils/x.py'', ''```'', ''def f(): pass'', ''```''])
   = Some (Inr [\<lparr>language = ''python'',
                 fileName = basename pm (join pm (outputDir options) ''utils/x.py''),
                 filePath = join pm (outputDir options) ''utils/x.py'',
                 fcontent = ''def f(): pass'', ftype = ''code-block''\<rparr>]) \<and>
   extractFiles pm options
     (join_nl [''// @file utils/x.py'', ''```python'', ''def f(): pass'', ''```'', []])
   = Some (Inr [\<lparr>language = ''python'',
                 fileName = basename pm (join pm (outputDir options) ''utils/x.py''),
                 filePath = join pm (outputDir options) ''utils/x.py'',
                 fcontent = ''def f(): pass'', ftype = ''code-block''\<rparr>])"
  by (simp add: coord_defs seg_defs str_defs rx_defs cls_defs Let_def)

section \<open>Termination of the Coordinator\<close>

lemma den_length: "st' \<in> den r st \<Longrightarrow> length (fst (snd st')) \<le> length (fst (snd st))"
proof (induction r arbitrary: st st')
  case (Chr a)
  obtain b s c where st: "st = (b, s, c)" by (cases st)
  with Chr show ?case unfolding st in_den_Chr by auto
next
  case (Cls p)
  obtain b s c where st: "st = (b, s, c)" by (cases st)
  with Cls show ?case by auto
next
  case Eps
  then show ?case by simp
next
  case (Seq r1 r2)
  from Seq.prems obtain st1 where "st1 \<in> den r1 st" "st' \<in> den r2 st1"
    unfolding in_den_Seq by blast
  with Seq.IH(1) [of st1 st] Seq.IH(2) [of st' st1] show ?case by simp
next
  case (Star p)
  obtain b s c where st: "st = (b, s, c)" by (cases st)
  with Star show ?case unfolding st in_den_Star by auto
next
  case (Plus p)
  obtain b s c where st: "st = (b, s, c)" by (cases st)
  with Plus show ?case unfolding st in_den_Plus by auto
next
  case (LazyStar p)
  obtain b s c where st: "st = (b, s, c)" by (cases st)
  with LazyStar show ?case unfolding st in_den_LazyStar by auto
next
  case (Opt r)
  obtain b s c where st: "st = (b, s, c)" by (cases st)
  from Opt.prems st have "st' = st \<or> st' \<in> den r st" by auto
  with Opt.IH [of st' st] show ?case by auto
next
  case (Grp n r)
  obtain b s c where st: "st = (b, s, c)" by (cases st)
  from Grp.prems st obtain st1 where st1: "st1 \<in> den r st" "fst (snd st') = fst (snd st1)"
    by (auto simp add: image_iff)
  with Grp.IH [of st1 st] show ?case by simp
next
  case Bol
  obtain b s c where st: "st = (b, s, c)" by (cases st)
  with Bol show ?case by (auto split: if_splits)
next
  case Eol
  obtain b s c where st: "st = (b, s, c)" by (cases st)
  with Eol show ?case by (auto split: if_splits)
qed

lemma den_caps_mono:
  "st' \<in> den r st \<Longrightarrow> snd (snd st) n \<noteq> None \<Longrightarrow> snd (snd st') n \<noteq> None"
proof (induction r arbitrary: st st')
  case (Chr a)
  obtain b s c where st: "st = (b, s, c)" by (cases st)
  with Chr show ?case unfolding st in_den_Chr by auto
next
  case (Cls p)
  obtain b s c where st: "st = (b, s, c)" by (cases st)
  with Cls show ?case by auto
next
  case Eps
  then show ?case by simp
next
  case (Seq r1 r2)
  from Seq.prems obtain st1 where "st1 \<in> den r1 st" "st' \<in> den r2 st1"
    unfolding in_den_Seq by blast
  with Seq.IH(1) [of st1 st] Seq.IH(2) [of st' st1] Seq.prems(2) show ?case by simp
next
  case (Star p)
  obtain b s c where st: "st = (b, s, c)" by (cases st)
  with Star show ?case unfolding st in_den_Star by auto
next
  case (Plus p)
  obtain b s c where st: "st = (b, s, c)" by (cases st)
  with Plus show ?case unfolding st in_den_Plus by auto
next
  case (LazyStar p)
  obtain b s c where st: "st = (b, s, c)" by (cases st)
  with LazyStar show ?case unfolding st in_den_LazyStar by auto
next
  case (Opt r)
  obtain b s c where st: "st = (b, s, c)" by (cases st)
  from Opt.prems st have "st' = st \<or> st' \<in> den r st" by auto
  with Opt.IH [of st' st] Opt.prems(2) show ?case by auto
next
  case (Grp m r)
  obtain b s c where st: "st = (b, s, c)" by (cases st)
  from Grp.prems(1) st obtain st1 x where st1: "st1 \<in> den r st"
    "snd (snd st') = (snd (snd st1))(m \<mapsto> x)"
    by (auto simp add: image_iff)
  with Grp.IH [of st1 st] Grp.prems(2) show ?case by simp
next
  case Bol
  obtain b s c where st: "st = (b, s, c)" by (cases st)
  with Bol show ?case by (auto split: if_splits)
next
  case Eol
  obtain b s c where st: "st = (b, s, c)" by (cases st)
  with Eol show ?case by (auto split: if_splits)
qed

lemma den_Chr_less:
  "st' \<in> den (Chr a) st \<Longrightarrow> length (fst (snd st')) < length (fst (snd st))"
proof -
  assume a: "st' \<in> den (Chr a) st"
  obtain b s c where st: "st = (b, s, c)" by (cases st)
  with a show ?thesis unfolding st in_den_Chr by auto
qed

lemma den_Grp_caps: "st' \<in> den (Grp n r) st \<Longrightarrow> snd (snd st') n \<noteq> None"
proof -
  assume a: "st' \<in> den (Grp n r) st"
  obtain b s c where st: "st = (b, s, c)" by (cases st)
  with a show ?thesis by (auto simp add: image_iff)
qed

lemma den_Plus_less:
  "st' \<in> den (Plus p) st \<Longrightarrow> length (fst (snd st')) < length (fst (snd st))"
proof -
  assume a: "st' \<in> den (Plus p) st"
  obtain b s c where st: "st = (b, s, c)" by (cases st)
  with a show ?thesis unfolding st in_den_Plus by auto
qed

lemma exec_g_den:
  assumes "exec_g r s i = Some (m0, g, j)"
  shows "\<exists>b s1 b' rest. (b', rest, g) \<in> den r (b, s1, Map.empty) \<and>
           length s1 + i \<le> length s \<and> j = length s - length rest"
proof -
  from assms have i: "i \<le> length s" by (simp add: exec_g_def split: if_splits)
  with assms obtain rest where sr: "search r (i = 0) (drop i s) = Some (m0, g, rest)"
    and j: "j = length s - length rest"
    by (auto simp add: exec_g_def split: option.splits)
  from search_sound [OF sr] obtain pre s1 b' where
    d: "drop i s = pre @ s1"
    and m: "mt r Some (i = 0 \<and> pre = [], s1, Map.empty) = Some (b', rest, g)"
    by blast
  from mt_sound [OF m] obtain st' where
    "st' \<in> den r (i = 0 \<and> pre = [], s1, Map.empty)" "Some st' = Some (b', rest, g)" by blast
  then have in_den: "(b', rest, g) \<in> den r (i = 0 \<and> pre = [], s1, Map.empty)" by simp
  from d have "length s1 \<le> length (drop i s)" by simp
  with i have "length s1 + i \<le> length s" by simp
  with in_den j show ?thesis by blast
qed

lemma exec_g_progress:
  assumes less: "\<And>st st'. st' \<in> den r st \<Longrightarrow> length (fst (snd st')) < length (fst (snd st))"
    and ex: "exec_g r s i = Some (m0, g, j)"
  shows "i < j \<and> j \<le> length s"
proof -
  from exec_g_den [OF ex] obtain b s1 b' rest where
    d: "(b', rest, g) \<in> den r (b, s1, Map.empty)" "length s1 + i \<le> length s"
    "j = length s - length rest" by blast
  from less [OF d(1)] have "length rest < length s1" by simp
  with d(2,3) show ?thesis by simp
qed

lemma artifact_form:
  "\<exists>L T. ARTIFACT_REGEX =
     Seq (Seq (Chr CHR ''<'') L)
       (Seq (Star not_gt) (Seq (Chr CHR ''>'') (Seq (Grp 1 (LazyStar is_any)) T)))"
  by (simp add: ARTIFACT_REGEX_def cat_def lit_def)

lemma artifact_den:
  assumes "st' \<in> den ARTIFACT_REGEX st"
  shows "length (fst (snd st')) < length (fst (snd st)) \<and> snd (snd st') 1 \<noteq> None"
proof -
  from artifact_form obtain L T where f: "ARTIFACT_REGEX =
     Seq (Seq (Chr CHR ''<'') L)
       (Seq (Star not_gt) (Seq (Chr CHR ''>'') (Seq (Grp 1 (LazyStar is_any)) T)))"
    by blast
  let ?R = "Seq (Star not_gt) (Seq (Chr CHR ''>'') (Seq (Grp 1 (LazyStar is_any)) T))"
  from assms have "st' \<in> den (Seq (Seq (Chr CHR ''<'') L) ?R) st" unfolding f .
  then obtain st1 where 1: "st1 \<in> den (Seq (Chr CHR ''<'') L) st" "st' \<in> den ?R st1"
    unfolding in_den_Seq [of st' "Seq (Chr CHR ''<'') L"] by blast
  from 1(1) obtain st0 where 0: "st0 \<in> den (Chr CHR ''<'') st" "st1 \<in> den L st0"
    unfolding in_den_Seq [of st1 "Chr CHR ''<''"] by blast
  from den_Chr_less [OF 0(1)] den_length [OF 0(2)] den_length [OF 1(2)]
  have less: "length (fst (snd st')) < length (fst (snd st))" by simp
  from 1(2) obtain st2 where
    2: "st' \<in> den (Seq (Chr CHR ''>'') (Seq (Grp 1 (LazyStar is_any)) T)) st2"
    unfolding in_den_Seq [of st' "Star not_gt"] by blast
  from 2 obtain st3 where 3: "st' \<in> den (Seq (Grp 1 (LazyStar is_any)) T) st3"
    unfolding in_den_Seq [of st' "Chr CHR ''>''"] by blast
  from 3 obtain st4 where 4: "st4 \<in> den (Grp 1 (LazyStar is_any)) st3" "st' \<in> den T st4"
    unfolding in_den_Seq [of st' "Grp 1 (LazyStar is_any)"] by blast
  from den_caps_mono [OF 4(2) den_Grp_caps [OF 4(1)]]
  have "snd (snd st') 1 \<noteq> None" .
  with less show ?thesis ..
qed

lemma artifact_den_less:
  "st' \<in> den ARTIFACT_REGEX st \<Longrightarrow> length (fst (snd st')) < length (fst (snd st))"
  using artifact_den by blast

lemma attrs_form:
  "\<exists>T. ARTIFACT_ATTRS_REGEX = Seq (Grp 1 (Plus is_word)) (Seq (Chr CHR ''='') T)"
  by (simp add: ARTIFACT_ATTRS_REGEX_def cat_def)

lemma attrs_den:
  assumes "st' \<in> den ARTIFACT_ATTRS_REGEX st"
  shows "length (fst (snd st')) < length (fst (snd st))"
proof -
  from attrs_form obtain T where
    f: "ARTIFACT_ATTRS_REGEX = Seq (Grp 1 (Plus is_word)) (Seq (Chr CHR ''='') T)" by blast
  from assms have "st' \<in> den (Seq (Grp 1 (Plus is_word)) (Seq (Chr CHR ''='') T)) st"
    unfolding f .
  then obtain st1 where 1: "st1 \<in> den (Grp 1 (Plus is_word)) st"
    "st' \<in> den (Seq (Chr CHR ''='') T) st1"
    unfolding in_den_Seq [of st' "Grp 1 (Plus is_word)"] by blast
  from 1(2) obtain st2 where 2: "st2 \<in> den (Chr CHR ''='') st1" "st' \<in> den T st2"
    unfolding in_den_Seq [of st' "Chr CHR ''=''"] by blast
  from den_length [OF 1(1)] den_Chr_less [OF 2(1)] den_length [OF 2(2)]
  show ?thesis by simp
qed

lemma attrs_loop_total: "\<exists>a'. attrs_loop m0 i a = Some a'"
proof (induction "length m0 - i" arbitrary: i a rule: less_induct)
  case less
  show ?case
  proof (cases "exec_g ARTIFACT_ATTRS_REGEX m0 i")
    case None
    then show ?thesis by (subst attrs_loop.simps) simp
  next
    case (Some y)
    obtain a0 g j where y: "y = (a0, g, j)" by (cases y)
    from Some y have "exec_g ARTIFACT_ATTRS_REGEX m0 i = Some (a0, g, j)" by simp
    from exec_g_progress [OF attrs_den this]
    have "i < j \<and> j \<le> length m0" .
    then have "length m0 - j < length m0 - i" by arith
    from less [OF this] obtain a' where
      "attrs_loop m0 j (a((case g 1 of None \<Rightarrow> ''undefined'' | Some n \<Rightarrow> n) := g 2)) = Some a'"
      by blast
    with Some y show ?thesis by (subst attrs_loop.simps) simp
  qed
qed

lemma artifact_body_Inr:
  "groups 1 \<noteq> None \<Longrightarrow> \<exists>acc'. artifact_body pm options groups attributes acc = Inr acc'"
  by (auto simp add: artifact_body_def Let_def)

lemma artifact_loop_total: "\<exists>acc'. artifact_loop pm options text i acc = Some (Inr acc')"
proof (induction "length text - i" arbitrary: i acc rule: less_induct)
  case less
  show ?case
  proof (cases "exec_g ARTIFACT_REGEX text i")
    case None
    then show ?thesis by (subst artifact_loop.simps) simp
  next
    case (Some y)
    obtain m0 g j where y: "y = (m0, g, j)" by (cases y)
    from Some y have ex: "exec_g ARTIFACT_REGEX text i = Some (m0, g, j)" by simp
    from exec_g_progress [OF artifact_den_less ex]
    have "i < j \<and> j \<le> length text" .
    then have m: "length text - j < length text - i" by arith
    from exec_g_den [OF ex] obtain b s1 b' rest where
      "(b', rest, g) \<in> den ARTIFACT_REGEX (b, s1, Map.empty)" by blast
    from artifact_den [OF this] have g1: "g 1 \<noteq> None" by simp
    obtain attributes where at: "attrs_loop m0 0 Map.empty = Some attributes"
      using attrs_loop_total by blast
    from artifact_body_Inr [of g pm options attributes acc] g1 obtain acc1 where
      b: "artifact_body pm options g attributes acc = Inr acc1" by blast
    from less [OF m] obtain acc' where
      "artifact_loop pm options text j acc1 = Some (Inr acc')" by blast
    with Some y at b show ?thesis by (subst artifact_loop.simps) simp
  qed
qed

lemma extractFiles_total: "\<exists>files. extractFiles pm options text = Some (Inr files)"
proof -
  let ?acc = "foldl (\<lambda>a block. collect a (processCodeBlock pm options block None))
                  ([], {}) (splitIntoCodeBlocks text)"
  from artifact_loop_total obtain acc' where
    "artifact_loop pm options text 0 ?acc = Some (Inr acc')" by blast
  then show ?thesis by (cases acc') (simp add: extractFiles_def)
qed

lemma isValidPath_nonempty: "isValidPath p \<Longrightarrow> p \<noteq> []"
  unfolding isValidPath_iff by auto

text \<open>
  Claim C9. For every document and output directory the Coordinator returns a list of
  records: both loops over the matches of a pattern end, and no operation raises. A line
  classified as a path declaration always carries a path, which is not empty and passes
  the validator, so the use of the path in the Segmenter is sound.
\<close>

theorem coordinator_total:
  "(\<exists>files. extractFiles pm options text = Some (Inr files)) \<and>
   (isPath (parseComment line) \<longrightarrow>
      (\<exists>p. ppath (parseComment line) = Some p \<and> p \<noteq> [] \<and> isValidPath p))"
proof
  show "\<exists>files. extractFiles pm options text = Some (Inr files)"
    by (rule extractFiles_total)
  show "isPath (parseComment line) \<longrightarrow>
      (\<exists>p. ppath (parseComment line) = Some p \<and> p \<noteq> [] \<and> isValidPath p)"
  proof
    assume ip: "isPath (parseComment line)"
    then obtain r where r: "try_patterns PATH_PATTERNS (trim line) = Some r"
      "parseComment line = r"
      by (auto simp add: parseComment_def Let_def split: option.splits if_splits)
    from try_patterns_valid [OF r(1)] r(2) isValidPath_nonempty
    show "\<exists>p. ppath (parseComment line) = Some p \<and> p \<noteq> [] \<and> isValidPath p" by auto
  qed
qed

theorem coordinator_total_witness:
  "isPath (parseComment ''// src/a.ts'') \<and>
   ppath (parseComment ''// src/a.ts'') = Some ''src/a.ts'' \<and>
   (\<exists>files. extractFiles plain_path_module plain_options ''<antArtifact x=> // a/b.c ```''
       = Some (Inr files))"
proof -
  have h: "isPath (parseComment ''// src/a.ts'')"
    by (simp add: seg_defs str_defs rx_defs cls_defs)
  have p: "ppath (parseComment ''// src/a.ts'') = Some ''src/a.ts''"
    by (simp add: seg_defs str_defs rx_defs cls_defs)
  from coordinator_total [of plain_path_module plain_options
      "''<antArtifact x=> // a/b.c ```''" "''// src/a.ts''"] h p
  show ?thesis by blast
qed

section \<open>The attribute scan of an artifact\<close>



















section \<open>First record per resolved path\<close>

lemma foldl_collect:
  "foldl (\<lambda>a block. collect a (g block)) acc bs = keep_first acc (List.map_filter g bs)"
proof (induction bs arbitrary: acc)
  case Nil
  then show ?case by (simp add: keep_first_def List.map_filter_simps)
next
  case (Cons b bs)
  show ?case
  proof (cases "g b")
    case None
    with Cons.IH [of acc] show ?thesis
      by (simp add: keep_first_def List.map_filter_simps collect_def)
  next
    case (Some f)
    with Cons.IH [of "collect acc (Some f)"] show ?thesis
      by (simp add: keep_first_def List.map_filter_simps)
  qed
qed

lemma keep_first_append: "keep_first acc (xs @ ys) = keep_first (keep_first acc xs) ys"
  by (simp add: keep_first_def)

lemma keep_first_spec:
  "tracked acc \<Longrightarrow>
   tracked (keep_first acc cs) \<and>
   filePath ` set (fst (keep_first acc cs)) = snd acc \<union> filePath ` set cs \<and>
   (\<forall>f\<in>set (fst (keep_first acc cs)).
      f \<in> set (fst acc) \<or>
      (filePath f \<notin> snd acc \<and> find (\<lambda>c. filePath c = filePath f) cs = Some f))"
proof (induction cs arbitrary: acc)
  case Nil
  then show ?case by (simp add: keep_first_def tracked_def)
next
  case (Cons c cs)
  let ?a = "collect acc (Some c)"
  have k: "keep_first acc (c # cs) = keep_first ?a cs" by (simp add: keep_first_def)
  show ?case
  proof (cases "filePath c \<in> snd acc")
    case True
    then have a: "?a = acc" by (simp add: collect_def)
    from Cons.IH [OF Cons.prems] True show ?thesis
      unfolding k a by auto
  next
    case False
    then have a: "?a = (fst acc @ [c], insert (filePath c) (snd acc))"
      by (simp add: collect_def)
    from Cons.prems False have t: "tracked ?a"
      unfolding a by (auto simp add: tracked_def)
    from Cons.IH [OF t] have
      1: "tracked (keep_first ?a cs)" and
      2: "filePath ` set (fst (keep_first ?a cs)) = snd ?a \<union> filePath ` set cs" and
      3: "\<forall>f\<in>set (fst (keep_first ?a cs)). f \<in> set (fst ?a) \<or>
           (filePath f \<notin> snd ?a \<and> find (\<lambda>c. filePath c = filePath f) cs = Some f)"
      by blast+
    have "\<forall>f\<in>set (fst (keep_first ?a cs)). f \<in> set (fst acc) \<or>
           (filePath f \<notin> snd acc \<and> find (\<lambda>x. filePath x = filePath f) (c # cs) = Some f)"
    proof
      fix f assume "f \<in> set (fst (keep_first ?a cs))"
      with 3 have "f \<in> set (fst ?a) \<or>
           (filePath f \<notin> snd ?a \<and> find (\<lambda>c. filePath c = filePath f) cs = Some f)" by blast
      then show "f \<in> set (fst acc) \<or>
           (filePath f \<notin> snd acc \<and> find (\<lambda>x. filePath x = filePath f) (c # cs) = Some f)"
        using False unfolding a by auto
    qed
    with 1 2 show ?thesis unfolding k a by auto
  qed
qed

lemma artifact_body_records:
  assumes "artifact_body pm options groups attributes acc = Inr acc1"
  shows "acc1 = keep_first acc (span_records pm options groups attributes)"
proof (cases "type_is_code attributes")
  case False
  with assms show ?thesis
    by (simp add: artifact_body_def span_records_def keep_first_def)
next
  case True
  show ?thesis
  proof (cases "groups 1")
    case None
    with True assms show ?thesis by (simp add: artifact_body_def)
  next
    case (Some artifactContent)
    with True assms show ?thesis
      by (simp add: artifact_body_def span_records_def Let_def foldl_collect)
  qed
qed

lemma artifact_loop_records:
  "artifact_loop pm options text i acc = Some (Inr acc') \<Longrightarrow>
   \<exists>cs. artifact_records pm options text i = Some cs \<and> acc' = keep_first acc cs"
proof (induction "length text - i" arbitrary: i acc rule: less_induct)
  case less
  show ?case
  proof (cases "exec_g ARTIFACT_REGEX text i")
    case None
    with less.prems have "acc' = acc" by (subst (asm) artifact_loop.simps) simp
    moreover from None have "artifact_records pm options text i = Some []"
      by (subst artifact_records.simps) simp
    ultimately show ?thesis by (simp add: keep_first_def)
  next
    case (Some y)
    obtain m0 g j where y: "y = (m0, g, j)" by (cases y)
    from Some y have ex: "exec_g ARTIFACT_REGEX text i = Some (m0, g, j)" by simp
    from exec_g_progress [OF artifact_den_less ex]
    have "i < j \<and> j \<le> length text" .
    then have m: "length text - j < length text - i" by arith
    obtain attributes where at: "attrs_loop m0 0 Map.empty = Some attributes"
      using attrs_loop_total by blast
    from less.prems have "(case artifact_body pm options g attributes acc of
          Inl e \<Rightarrow> Some (Inl e)
        | Inr acc1 \<Rightarrow> artifact_loop pm options text j acc1) = Some (Inr acc')"
      by (subst (asm) artifact_loop.simps) (simp add: ex at)
    then obtain acc1 where
      b: "artifact_body pm options g attributes acc = Inr acc1"
      and l: "artifact_loop pm options text j acc1 = Some (Inr acc')"
      by (cases "artifact_body pm options g attributes acc") simp_all
    from less.hyps [OF m l] obtain cs where
      cs: "artifact_records pm options text j = Some cs" "acc' = keep_first acc1 cs" by blast
    from ex at cs(1) have
      "artifact_records pm options text i = Some (span_records pm options g attributes @ cs)"
      by (subst artifact_records.simps) simp
    moreover from cs(2) artifact_body_records [OF b]
    have "acc' = keep_first acc (span_records pm options g attributes @ cs)"
      by (simp add: keep_first_append)
    ultimately show ?thesis by blast
  qed
qed

text \<open>
  Claim C2. The records the Coordinator returns have pairwise different resolved paths;
  their paths are exactly the paths of the fragments' records; and each returned record is
  the first record with its path in processing order (direct fragments before artifact
  fragments, each in document order), so it has the content of that first fragment.
\<close>

theorem first_record_per_path:
  "extractFiles pm options text = Some (Inr files) \<Longrightarrow>
   distinct (map filePath files) \<and>
   (\<exists>cands. fragment_records pm options text = Some cands \<and>
      filePath ` set files = filePath ` set cands \<and>
      (\<forall>f\<in>set files. find (\<lambda>c. filePath c = filePath f) cands = Some f))"
proof -
  assume e: "extractFiles pm options text = Some (Inr files)"
  let ?direct = "List.map_filter (\<lambda>block. processCodeBlock pm options block None)
                   (splitIntoCodeBlocks text)"
  let ?acc = "keep_first ([], {}) ?direct"
  from artifact_loop_total obtain acc' where
    l0: "artifact_loop pm options text 0 ?acc = Some (Inr acc')" by blast
  obtain fs ps where acc': "acc' = (fs, ps)" by (cases acc')
  from e l0 acc' have "fs = files"
    by (simp add: extractFiles_def foldl_collect)
  with l0 acc' have l: "artifact_loop pm options text 0 ?acc = Some (Inr (files, ps))"
    by simp
  from artifact_loop_records [OF l] obtain cs where
    cs: "artifact_records pm options text 0 = Some cs" "(files, ps) = keep_first ?acc cs"
    by blast
  let ?cands = "?direct @ cs"
  from cs(2) have k: "keep_first ([], {}) ?cands = (files, ps)"
    by (simp add: keep_first_append)
  have t: "tracked ([], {})" by (simp add: tracked_def)
  from keep_first_spec [OF t, of ?cands] k have
    1: "tracked (files, ps)" and
    2: "filePath ` set files = filePath ` set ?cands" and
    3: "\<forall>f\<in>set files. find (\<lambda>c. filePath c = filePath f) ?cands = Some f"
    by simp_all
  from cs(1) have "fragment_records pm options text = Some ?cands"
    by (simp add: fragment_records_def)
  with 1 2 3 show ?thesis by (auto simp add: tracked_def)
qed

theorem first_record_per_path_witness:
  "extractFiles plain_path_module plain_options duplicate_path_document
     = Some (Inr [\<lparr>language = ''typescript'', fileName = ''a.ts'',
                   filePath = ''extracted/src/a.ts'', fcontent = ''A'',
                   ftype = ''code-block''\<rparr>]) \<and>
   fragment_records plain_path_module plain_options duplicate_path_document
     = Some [\<lparr>language = ''typescript'', fileName = ''a.ts'',
              filePath = ''extracted/src/a.ts'', fcontent = ''A'', ftype = ''code-block''\<rparr>,
             \<lparr>language = ''typescript'', fileName = ''a.ts'',
              filePath = ''extracted/src/a.ts'', fcontent = ''B'', ftype = ''code-block''\<rparr>] \<and>
   find (\<lambda>c. filePath c = ''extracted/src/a.ts'')
     [\<lparr>language = ''typescript'', fileName = ''a.ts'',
              filePath = ''extracted/src/a.ts'', fcontent = ''A'', ftype = ''code-block''\<rparr>,
             \<lparr>language = ''typescript'', fileName = ''a.ts'',
              filePath = ''extracted/src/a.ts'', fcontent = ''B'', ftype = ''code-block''\<rparr>]
     = Some \<lparr>language = ''typescript'', fileName = ''a.ts'',
                   filePath = ''extracted/src/a.ts'', fcontent = ''A'',
                   ftype = ''code-block''\<rparr>"
proof -
  let ?A = "\<lparr>language = ''typescript'', fileName = ''a.ts'',
              filePath = ''extracted/src/a.ts'', fcontent = ''A'', ftype = ''code-block''\<rparr>"
  let ?B = "\<lparr>language = ''typescript'', fileName = ''a.ts'',
              filePath = ''extracted/src/a.ts'', fcontent = ''B'', ftype = ''code-block''\<rparr>"
  have e: "extractFiles plain_path_module plain_options duplicate_path_document
     = Some (Inr [?A])"
    by (simp add: duplicate_path_document_def coord_defs seg_defs str_defs rx_defs cls_defs
          Let_def)
  have c: "fragment_records plain_path_module plain_options duplicate_path_document
     = Some [?A, ?B]"
    by (simp add: duplicate_path_document_def fragment_records_def artifact_records.simps
          List.map_filter_simps coord_defs seg_defs str_defs rx_defs cls_defs Let_def)
  from first_record_per_path [OF e] c
  have "find (\<lambda>c. filePath c = ''extracted/src/a.ts'') [?A, ?B] = Some ?A" by simp
  with e c show ?thesis by blast
qed

end
